theory Spec2Isabelle
  imports Complex_Main "HOL-Library.FSet" "HOL-Library.AList"
begin

section \<open>Data model\<close>

text \<open>
  The corpus of \<^verbatim>\<open>pagerank.py\<close> is a Python \<^verbatim>\<open>dict\<close> from a page to the
  \<^verbatim>\<open>set\<close> of pages it links to. A dict keeps its keys in insertion order and the
  functions below iterate over it, so it is an association list (with distinct keys,
  which is what \<open>wf_dict\<close> says); a Python set is a finite set. The dictionaries of
  ranks the functions build and return are association lists from a page to a number.
  Python's floats are modelled by the reals: all arithmetic is exact.
\<close>

datatype error = KeyError | ZeroDivisionError | IndexError | ValueError | TypeError

type_synonym 'a corpus = "('a \<times> 'a fset) list"

type_synonym 'a ranks = "('a \<times> real) list"

definition wf_dict :: "('k \<times> 'v) list \<Rightarrow> bool" where
  "wf_dict d = distinct (map fst d)"

text \<open>
  The invariant of the graph the crawler produces (\<^verbatim>\<open>crawl\<close>, lines 39 to 46): every
  link points to a page of the corpus, and no page links to itself.
\<close>

definition valid_corpus :: "'a corpus \<Rightarrow> bool" where
  "valid_corpus corpus =
     (wf_dict corpus \<and>
      list_all (\<lambda>(page, links). page |\<notin>| links \<and> fset links \<subseteq> set (map fst corpus)) corpus)"

text \<open>\<^verbatim>\<open>d[k]\<close> raises \<^verbatim>\<open>KeyError\<close> on a missing key; \<^verbatim>\<open>a / b\<close> raises
  \<^verbatim>\<open>ZeroDivisionError\<close> when \<^verbatim>\<open>b\<close> is zero. \<^verbatim>\<open>d[k] = v\<close> is \<open>AList.update\<close>:
  it overwrites the value of an existing key in place and appends a new key at the end.\<close>

definition dict_get :: "('k \<times> 'v) list \<Rightarrow> 'k \<Rightarrow> error + 'v" where
  "dict_get d k = (case map_of d k of None \<Rightarrow> Inl KeyError | Some v \<Rightarrow> Inr v)"

definition true_div :: "real \<Rightarrow> real \<Rightarrow> error + real" where
  "true_div a b = (if b = 0 then Inl ZeroDivisionError else Inr (a / b))"

section \<open>The transition model\<close>

text \<open>
  \<^verbatim>\<open>for pg in corpus: pr_dict[pg] = f(pg)\<close>, the shape of both loops of
  \<^verbatim>\<open>transition_model\<close> (lines 64 to 65 and 68 to 72) and of the initialisation loops of
  the two estimators (lines 86 to 87 and 118 to 119).
\<close>

fun assign_each :: "('a \<Rightarrow> real) \<Rightarrow> 'a corpus \<Rightarrow> 'a ranks \<Rightarrow> 'a ranks" where
  "assign_each f [] pr_dict = pr_dict"
| "assign_each f ((pg, links) # rest) pr_dict = assign_each f rest (AList.update pg (f pg) pr_dict)"

text \<open>
  Lines 51 to 73. \<^verbatim>\<open>corpus[page]\<close> raises \<^verbatim>\<open>KeyError\<close> before anything else is
  computed. The divisions by \<^verbatim>\<open>len(corpus)\<close> and \<^verbatim>\<open>num_pages\<close> are inside loops over
  the corpus, so they run only when the corpus has a page, and \<^verbatim>\<open>num_links\<close> is not
  zero where it divides: none of them can raise.
\<close>

definition transition_model :: "'a corpus \<Rightarrow> 'a \<Rightarrow> real \<Rightarrow> error + 'a ranks" where
  "transition_model corpus page damping_factor =
     (let num_pages = length corpus in
      case dict_get corpus page of
        Inl e \<Rightarrow> Inl e
      | Inr links \<Rightarrow>
          (let num_links = fcard links in
           if num_links = 0
           then Inr (assign_each (\<lambda>pg. 1 / real (length corpus)) corpus [])
           else Inr (assign_each
                  (\<lambda>pg. (1 - damping_factor) / real num_pages
                         + (if pg |\<in>| links then damping_factor / real num_links else 0))
                  corpus [])))"

section \<open>Renormalisation\<close>

text \<open>
  \<^verbatim>\<open>for page in probabilities: probabilities[page] = probabilities[page] / c\<close>
  (lines 98 to 99, 101 to 102 and 137 to 138); the first argument is the list of keys
  the loop runs over.
\<close>

fun divide_each :: "'a list \<Rightarrow> real \<Rightarrow> 'a ranks \<Rightarrow> error + 'a ranks" where
  "divide_each [] c probabilities = Inr probabilities"
| "divide_each (page # rest) c probabilities =
     (case dict_get probabilities page of
        Inl e \<Rightarrow> Inl e
      | Inr v \<Rightarrow>
          (case true_div v c of
             Inl e \<Rightarrow> Inl e
           | Inr q \<Rightarrow> divide_each rest c (AList.update page q probabilities)))"

text \<open>Lines 100 to 102 and 136 to 138: \<^verbatim>\<open>total = sum(list(probabilities.values()))\<close>,
  then every entry is divided by it.\<close>

definition normalize :: "'a ranks \<Rightarrow> error + 'a ranks" where
  "normalize probabilities =
     (let total = sum_list (map snd probabilities)
      in divide_each (map fst probabilities) total probabilities)"

section \<open>The sampling estimator\<close>

text \<open>
  The random source. \<^verbatim>\<open>random.choice\<close> and \<^verbatim>\<open>random.choices\<close> belong to Python's
  standard library; each call consumes one uniform draw \<open>u\<close> from \<open>[0, 1)\<close>, which the
  model takes as an argument. \<^verbatim>\<open>choice(seq)\<close> raises \<^verbatim>\<open>IndexError\<close> on an empty
  sequence and returns \<^verbatim>\<open>seq[floor(u * len(seq))]\<close> otherwise. \<^verbatim>\<open>choices(population,
  weights, k=1)[0]\<close> accumulates the weights, raises \<^verbatim>\<open>ValueError\<close> when their total is
  not positive, and returns the element at the first position whose cumulative weight
  exceeds \<^verbatim>\<open>u * total\<close>, the position being capped at the last one. (The library
  finds that position by bisection; on weights that are not negative, the case of the
  accumulator for a damping factor in \<open>[0, 1]\<close>, the scan of \<open>bisect\<close> below finds the
  same one.)
\<close>

definition uniform_pick :: "real \<Rightarrow> 'a list \<Rightarrow> 'a" where
  "uniform_pick u seq = seq ! min (nat \<lfloor>u * real (length seq)\<rfloor>) (length seq - 1)"

definition random_choice :: "real \<Rightarrow> 'a list \<Rightarrow> error + 'a" where
  "random_choice u seq = (if seq = [] then Inl IndexError else Inr (uniform_pick u seq))"

fun accumulate :: "real \<Rightarrow> real list \<Rightarrow> real list" where
  "accumulate acc [] = []"
| "accumulate acc (w # ws) = (acc + w) # accumulate (acc + w) ws"

definition bisect :: "real list \<Rightarrow> real \<Rightarrow> nat" where
  "bisect cum_weights x = length (takeWhile (\<lambda>c. c \<le> x) cum_weights)"

definition weighted_pick :: "real \<Rightarrow> 'a list \<Rightarrow> real list \<Rightarrow> 'a" where
  "weighted_pick u population weights =
     (let cum_weights = accumulate 0 weights;
          total = last cum_weights
      in population ! min (bisect cum_weights (u * total)) (length population - 1))"

definition random_choices :: "real \<Rightarrow> 'a list \<Rightarrow> real list \<Rightarrow> error + 'a" where
  "random_choices u population weights =
     (if population = [] then Inl IndexError
      else if last (accumulate 0 weights) \<le> 0 then Inl ValueError
      else Inr (weighted_pick u population weights))"

text \<open>\<^verbatim>\<open>for page in new_probabilities: probabilities[page] += new_probabilities[page]\<close>
  (lines 95 to 96), over the items of \<^verbatim>\<open>new_probabilities\<close>.\<close>

fun add_each :: "'a ranks \<Rightarrow> 'a ranks \<Rightarrow> error + 'a ranks" where
  "add_each [] probabilities = Inr probabilities"
| "add_each ((page, p) # rest) probabilities =
     (case dict_get probabilities page of
        Inl e \<Rightarrow> Inl e
      | Inr v \<Rightarrow> add_each rest (AList.update page (v + p) probabilities))"

text \<open>
  The \<^verbatim>\<open>while i < n\<close> loop of lines 89 to 97. \<open>draws i\<close> is the uniform draw the
  random source hands out in iteration \<open>i\<close>.
\<close>

function sample_loop ::
  "'a corpus \<Rightarrow> real \<Rightarrow> int \<Rightarrow> (nat \<Rightarrow> real) \<Rightarrow> nat \<Rightarrow> 'a ranks \<Rightarrow> error + 'a ranks" where
  "sample_loop corpus damping_factor n draws i probabilities =
     (if int i < n then
        (case (if i = 0 then random_choice (draws i) (map fst probabilities)
               else random_choices (draws i) (map fst probabilities) (map snd probabilities)) of
           Inl e \<Rightarrow> Inl e
         | Inr sample_page \<Rightarrow>
             (case transition_model corpus sample_page damping_factor of
                Inl e \<Rightarrow> Inl e
              | Inr new_probabilities \<Rightarrow>
                  (case add_each new_probabilities probabilities of
                     Inl e \<Rightarrow> Inl e
                   | Inr probabilities' \<Rightarrow>
                       sample_loop corpus damping_factor n draws (i + 1) probabilities')))
      else Inr probabilities)"
  by pat_completeness auto
termination
  by (relation "measure (\<lambda>(corpus, damping_factor, n, draws, i, probabilities). nat (n - int i))") auto

declare sample_loop.simps [simp del]

text \<open>Lines 76 to 103.\<close>

definition sample_pagerank ::
  "'a corpus \<Rightarrow> real \<Rightarrow> int \<Rightarrow> (nat \<Rightarrow> real) \<Rightarrow> error + 'a ranks" where
  "sample_pagerank corpus damping_factor n draws =
     (case sample_loop corpus damping_factor n draws 0 (assign_each (\<lambda>page. 0) corpus []) of
        Inl e \<Rightarrow> Inl e
      | Inr probabilities \<Rightarrow>
          (case divide_each (map fst probabilities) (real_of_int n) probabilities of
             Inl e \<Rightarrow> Inl e
           | Inr probabilities' \<Rightarrow> normalize probabilities'))"

section \<open>The iterative estimator\<close>

text \<open>
  The inner loop of lines 123 to 128, over the items \<open>(extra, corpus[extra])\<close> of the
  corpus. \<^verbatim>\<open>probabilities[extra]\<close> is read only inside the two \<^verbatim>\<open>if\<close>s. The divisions
  cannot raise: the loop runs only when the corpus has a page, and a set that has
  \<^verbatim>\<open>page\<close> as a member is not empty.
\<close>

fun prob_total_loop :: "'a corpus \<Rightarrow> 'a ranks \<Rightarrow> 'a \<Rightarrow> 'a corpus \<Rightarrow> real \<Rightarrow> error + real" where
  "prob_total_loop corpus probabilities page [] prob_total = Inr prob_total"
| "prob_total_loop corpus probabilities page ((extra, links) # rest) prob_total =
     (case (if links = {||}
            then (case dict_get probabilities extra of
                    Inl e \<Rightarrow> Inl e
                  | Inr r \<Rightarrow> Inr (prob_total + r / real (length corpus)))
            else Inr prob_total) of
        Inl e \<Rightarrow> Inl e
      | Inr prob_total1 \<Rightarrow>
          (case (if page |\<in>| links
                 then (case dict_get probabilities extra of
                         Inl e \<Rightarrow> Inl e
                       | Inr r \<Rightarrow> Inr (prob_total1 + r / real (fcard links)))
                 else Inr prob_total1) of
             Inl e \<Rightarrow> Inl e
           | Inr prob_total2 \<Rightarrow> prob_total_loop corpus probabilities page rest prob_total2))"

text \<open>Lines 123 to 130: the new rank of \<^verbatim>\<open>page\<close> from the current ranks.\<close>

definition new_rank :: "'a corpus \<Rightarrow> real \<Rightarrow> 'a ranks \<Rightarrow> 'a \<Rightarrow> error + real" where
  "new_rank corpus damping_factor probabilities page =
     (let pages_num = length corpus in
      case prob_total_loop corpus probabilities page corpus 0 of
        Inl e \<Rightarrow> Inl e
      | Inr prob_total \<Rightarrow> Inr ((1 - damping_factor) / real pages_num + damping_factor * prob_total))"

text \<open>
  The \<^verbatim>\<open>for page in candidates_list\<close> loop of lines 122 to 135. Its body removes
  \<^verbatim>\<open>page\<close> from the very list it runs over. A Python list iterator is an index into
  the list, checked against the current length before each step: \<open>i\<close> is that index.
  \<^verbatim>\<open>list.remove\<close> deletes the first occurrence, as \<open>remove1\<close> does.
\<close>

function pass_loop ::
  "'a corpus \<Rightarrow> real \<Rightarrow> nat \<Rightarrow> 'a list \<Rightarrow> 'a ranks \<Rightarrow> error + ('a ranks \<times> 'a list)" where
  "pass_loop corpus damping_factor i candidates_list probabilities =
     (if i < length candidates_list then
        (let page = candidates_list ! i in
         case new_rank corpus damping_factor probabilities page of
           Inl e \<Rightarrow> Inl e
         | Inr new_pr \<Rightarrow>
             (case dict_get probabilities page of
                Inl e \<Rightarrow> Inl e
              | Inr old_pr \<Rightarrow>
                  pass_loop corpus damping_factor (i + 1)
                    (if \<bar>new_pr - old_pr\<bar> < 1 / 1000
                     then remove1 page candidates_list else candidates_list)
                    (AList.update page new_pr probabilities)))
      else Inr (probabilities, candidates_list))"
  by pat_completeness auto
termination
  by (relation "measure (\<lambda>(corpus, damping_factor, i, candidates_list, probabilities).
                  length candidates_list - i)")
     (auto simp: length_remove1)

declare pass_loop.simps [simp del]

text \<open>
  The \<^verbatim>\<open>while len(candidates_list) > 0\<close> loop of lines 121 to 135. Nothing bounds the
  number of passes, so the loop is a partial function: \<open>None\<close> is a run that never
  leaves the loop.
\<close>

partial_function (option) iterate_loop ::
  "'a corpus \<Rightarrow> real \<Rightarrow> 'a list \<Rightarrow> 'a ranks \<Rightarrow> (error + 'a ranks) option" where
  "iterate_loop corpus damping_factor candidates_list probabilities =
     (if length candidates_list > 0 then
        (case pass_loop corpus damping_factor 0 candidates_list probabilities of
           Inl e \<Rightarrow> Some (Inl e)
         | Inr (probabilities', candidates_list') \<Rightarrow>
             iterate_loop corpus damping_factor candidates_list' probabilities')
      else Some (Inr probabilities))"

declare iterate_loop.simps [code]

text \<open>Lines 106 to 140.\<close>

definition iterate_pagerank :: "'a corpus \<Rightarrow> real \<Rightarrow> (error + 'a ranks) option" where
  "iterate_pagerank corpus damping_factor =
     (let pages_num = length corpus in
      case true_div 1 (real pages_num) of
        Inl e \<Rightarrow> Some (Inl e)
      | Inr initial_prob \<Rightarrow>
          (case iterate_loop corpus damping_factor (map fst corpus)
                  (assign_each (\<lambda>page. initial_prob) corpus []) of
             None \<Rightarrow> None
           | Some (Inl e) \<Rightarrow> Some (Inl e)
           | Some (Inr probabilities) \<Rightarrow> Some (normalize probabilities)))"

section \<open>The iterative estimator on a store\<close>

text \<open>
  The definitions above hand the contents of Python's objects from one statement to the
  next. To speak of state that outlives a call, lines 106 to 140 are embedded a second
  time over an explicit store: a list of objects, a reference being an index into it.
  \<open>iterate_pagerank\<close> receives a reference to the corpus; \<^verbatim>\<open>dict()\<close> and
  \<^verbatim>\<open>list(corpus)\<close> put two new objects at the end of the store;
  \<^verbatim>\<open>candidates_list.remove(page)\<close> and \<^verbatim>\<open>probabilities[page] = ...\<close> change them in
  place; the function returns the reference held by \<^verbatim>\<open>probabilities\<close>. The module has
  no global variable, and the function has no default argument, no attribute and no
  enclosing scope, so the store is all the state a call can reach. The sets of links
  inside the corpus are only read and stay values.
\<close>

datatype 'a obj = CorpusObj "'a corpus" | RanksObj "'a ranks" | ListObj "'a list"

type_synonym 'a heap = "'a obj list"

text \<open>
  Reading a reference. Python's references always hold an object; a reference of the
  model that holds none, or an object of another class than the statement expects, is
  given the exception \<^verbatim>\<open>TypeError\<close>.
\<close>

definition get_corpus :: "'a heap \<Rightarrow> nat \<Rightarrow> error + 'a corpus" where
  "get_corpus h a =
     (if a < length h then (case h ! a of CorpusObj corpus \<Rightarrow> Inr corpus | _ \<Rightarrow> Inl TypeError)
      else Inl TypeError)"

definition get_ranks :: "'a heap \<Rightarrow> nat \<Rightarrow> error + 'a ranks" where
  "get_ranks h a =
     (if a < length h then (case h ! a of RanksObj probabilities \<Rightarrow> Inr probabilities | _ \<Rightarrow> Inl TypeError)
      else Inl TypeError)"

definition get_list :: "'a heap \<Rightarrow> nat \<Rightarrow> error + 'a list" where
  "get_list h a =
     (if a < length h then (case h ! a of ListObj pages \<Rightarrow> Inr pages | _ \<Rightarrow> Inl TypeError)
      else Inl TypeError)"

text \<open>
  The \<^verbatim>\<open>for page in candidates_list\<close> loop of lines 122 to 135 on the store. The
  iterator holds the reference to the list and the index \<open>i\<close> and reads the list anew
  at every step. Lines 123 to 130 read the corpus and the ranks and write nothing;
  line 133 writes the list and line 135 the dictionary of ranks.
\<close>

function pass_loop_st ::
  "nat \<Rightarrow> real \<Rightarrow> nat \<Rightarrow> nat \<Rightarrow> nat \<Rightarrow> 'a heap \<Rightarrow> (error + unit) \<times> 'a heap" where
  "pass_loop_st corpus damping_factor i candidates_list probabilities h =
     (case get_list h candidates_list of
        Inl e \<Rightarrow> (Inl e, h)
      | Inr cands \<Rightarrow>
          if i < length cands then
            (let page = cands ! i in
             case get_corpus h corpus of
               Inl e \<Rightarrow> (Inl e, h)
             | Inr corpus_dict \<Rightarrow>
                 (case get_ranks h probabilities of
                    Inl e \<Rightarrow> (Inl e, h)
                  | Inr probs \<Rightarrow>
                      (case new_rank corpus_dict damping_factor probs page of
                         Inl e \<Rightarrow> (Inl e, h)
                       | Inr new_pr \<Rightarrow>
                           (case dict_get probs page of
                              Inl e \<Rightarrow> (Inl e, h)
                            | Inr old_pr \<Rightarrow>
                                (let h1 = (if \<bar>new_pr - old_pr\<bar> < 1 / 1000
                                           then h[candidates_list := ListObj (remove1 page cands)]
                                           else h)
                                 in case get_ranks h1 probabilities of
                                      Inl e \<Rightarrow> (Inl e, h1)
                                    | Inr probs1 \<Rightarrow>
                                        pass_loop_st corpus damping_factor (i + 1) candidates_list
                                          probabilities
                                          (h1[probabilities := RanksObj (AList.update page new_pr probs1)]))))))
          else (Inr (), h))"
  by pat_completeness auto
termination
proof (relation "measure (\<lambda>(corpus, damping_factor, i, candidates_list, probabilities, h).
                  (case get_list h candidates_list of Inl e \<Rightarrow> 0 | Inr cands \<Rightarrow> length cands - i))")
  show "wf (measure (\<lambda>(corpus, damping_factor, i, candidates_list, probabilities, h).
                  (case get_list h candidates_list of Inl e \<Rightarrow> 0 | Inr cands \<Rightarrow> length cands - i)))"
    by simp
next
  fix corpus :: nat and damping_factor :: real and i candidates_list probabilities :: nat
    and h h1 :: "'a heap" and cands :: "'a list" and page :: 'a and new_pr old_pr :: real
    and probs1 :: "'a ranks"
  assume gl: "get_list h candidates_list = Inr cands" and i: "i < length cands"
    and h1: "h1 = (if \<bar>new_pr - old_pr\<bar> < 1 / 1000
                    then h[candidates_list := ListObj (remove1 page cands)] else h)"
    and gr: "get_ranks h1 probabilities = Inr probs1"
  have len: "length h1 = length h" by (simp add: h1)
  from gl have q: "candidates_list < length h"
    by (auto simp: get_list_def split: if_splits)
  have "\<exists>cands1. get_list h1 candidates_list = Inr cands1 \<and> length cands1 \<le> length cands"
    using gl q by (auto simp: h1 get_list_def length_remove1)
  then obtain cands1 where c1: "get_list h1 candidates_list = Inr cands1"
    and l1: "length cands1 \<le> length cands" by blast
  show "((corpus, damping_factor, i + 1, candidates_list, probabilities,
          h1[probabilities := RanksObj (AList.update page new_pr probs1)]),
         corpus, damping_factor, i, candidates_list, probabilities, h)
        \<in> measure (\<lambda>(corpus, damping_factor, i, candidates_list, probabilities, h).
                  (case get_list h candidates_list of Inl e \<Rightarrow> 0 | Inr cands \<Rightarrow> length cands - i))"
  proof (cases "probabilities = candidates_list")
    case True
    then have "get_list (h1[probabilities := RanksObj (AList.update page new_pr probs1)]) candidates_list
        = Inl TypeError"
      using q len by (simp add: get_list_def)
    with gl i show ?thesis by simp
  next
    case False
    then have "get_list (h1[probabilities := RanksObj (AList.update page new_pr probs1)]) candidates_list
        = Inr cands1"
      using c1 by (auto simp: get_list_def split: if_splits)
    with gl i l1 show ?thesis by simp
  qed
qed

declare pass_loop_st.simps [simp del]

text \<open>The \<^verbatim>\<open>while\<close> loop of lines 121 to 135 on the store.\<close>

partial_function (option) iterate_loop_st ::
  "nat \<Rightarrow> real \<Rightarrow> nat \<Rightarrow> nat \<Rightarrow> 'a heap \<Rightarrow> ((error + unit) \<times> 'a heap) option" where
  "iterate_loop_st corpus damping_factor candidates_list probabilities h =
     (case get_list h candidates_list of
        Inl e \<Rightarrow> Some (Inl e, h)
      | Inr cands \<Rightarrow>
          if length cands > 0 then
            (case pass_loop_st corpus damping_factor 0 candidates_list probabilities h of
               (Inl e, h') \<Rightarrow> Some (Inl e, h')
             | (Inr u, h') \<Rightarrow> iterate_loop_st corpus damping_factor candidates_list probabilities h')
          else Some (Inr (), h))"

text \<open>
  Lines 106 to 140 on the store: \<open>corpus\<close> is the reference the caller passes, the
  result is the reference to the new dictionary of ranks together with the store the
  call leaves behind. The renormalisation of lines 136 to 138 writes the dictionary in
  place; when the total is 0 the first division raises before anything is written.
\<close>

definition iterate_pagerank_st ::
  "nat \<Rightarrow> real \<Rightarrow> 'a heap \<Rightarrow> ((error + nat) \<times> 'a heap) option" where
  "iterate_pagerank_st corpus damping_factor h =
     (case get_corpus h corpus of
        Inl e \<Rightarrow> Some (Inl e, h)
      | Inr corpus_dict \<Rightarrow>
          (let pages_num = length corpus_dict in
           case true_div 1 (real pages_num) of
             Inl e \<Rightarrow> Some (Inl e, h)
           | Inr initial_prob \<Rightarrow>
               (let probabilities = length h;
                    h0 = h @ [RanksObj []];
                    h1 = h0[probabilities :=
                            RanksObj (assign_each (\<lambda>page. initial_prob) corpus_dict [])];
                    candidates_list = length h1;
                    h2 = h1 @ [ListObj (map fst corpus_dict)]
                in case iterate_loop_st corpus damping_factor candidates_list probabilities h2 of
                     None \<Rightarrow> None
                   | Some (Inl e, h3) \<Rightarrow> Some (Inl e, h3)
                   | Some (Inr u, h3) \<Rightarrow>
                       (case get_ranks h3 probabilities of
                          Inl e \<Rightarrow> Some (Inl e, h3)
                        | Inr probs \<Rightarrow>
                            (case normalize probs of
                               Inl e \<Rightarrow> Some (Inl e, h3)
                             | Inr probs' \<Rightarrow>
                                 Some (Inr probabilities, h3[probabilities := RanksObj probs']))))))"

text \<open>
  What the caller sees of a call: nothing when the call never returns, the exception
  when it raises, and else the contents of the dictionary it returns.
\<close>

fun observe :: "((error + nat) \<times> 'a heap) option \<Rightarrow> (error + 'a ranks) option" where
  "observe None = None"
| "observe (Some (Inl e, h)) = Some (Inl e)"
| "observe (Some (Inr a, h)) = Some (get_ranks h a)"

text \<open>
  The three references of the loops are distinct and hold the corpus, the ranks and
  the candidates; two stores are the same except at a set of references.
\<close>

definition st_inv :: "nat \<Rightarrow> nat \<Rightarrow> nat \<Rightarrow> 'a heap \<Rightarrow> 'a corpus \<Rightarrow> 'a ranks \<Rightarrow> 'a list \<Rightarrow> bool" where
  "st_inv c p q h corpus probs cands =
     (c \<noteq> p \<and> c \<noteq> q \<and> p \<noteq> q \<and> get_corpus h c = Inr corpus \<and> get_ranks h p = Inr probs
      \<and> get_list h q = Inr cands)"

definition same_except :: "'a heap \<Rightarrow> 'a heap \<Rightarrow> nat set \<Rightarrow> bool" where
  "same_except h h' A = (length h' = length h \<and> (\<forall>a. a \<notin> A \<longrightarrow> h' ! a = h ! a))"

section \<open>The specification's formulas\<close>

text \<open>
  The definitions of this section follow the words of the specification, not the code;
  the theorems below compare the code with them. \<open>targets graph q\<close> is the target set of
  node \<open>q\<close>, \<open>N\<close> the number of nodes, \<open>L(q)\<close> the number of targets of \<open>q\<close>.
\<close>

definition targets :: "'a corpus \<Rightarrow> 'a \<Rightarrow> 'a fset" where
  "targets graph q = (case map_of graph q of None \<Rightarrow> {||} | Some links \<Rightarrow> links)"

text \<open>
  Section 4.1: the uniform distribution for a dangling current node; otherwise
  \<open>(1 - d)/N + d/L\<close> for a target of the current node and \<open>(1 - d)/N\<close> for any other.
\<close>

definition spec_transition :: "'a corpus \<Rightarrow> 'a \<Rightarrow> real \<Rightarrow> 'a ranks" where
  "spec_transition graph currentNode d =
     map (\<lambda>(p, ls). (p,
       if targets graph currentNode = {||} then 1 / real (length graph)
       else if p |\<in>| targets graph currentNode
         then (1 - d) / real (length graph) + d / real (fcard (targets graph currentNode))
       else (1 - d) / real (length graph))) graph"

text \<open>
  Section 4.2, steps 1 to 3. \<open>spec_walk graph d draws k\<close> is the tracked node and the
  accumulator after \<open>k\<close> repetitions: at first a node picked uniformly and the
  accumulator that is 0 everywhere; each repetition adds the whole transition
  distribution of the tracked node to the accumulator and then picks the next tracked
  node with the accumulator's current values as weights.
\<close>

primrec spec_walk :: "'a corpus \<Rightarrow> real \<Rightarrow> (nat \<Rightarrow> real) \<Rightarrow> nat \<Rightarrow> 'a \<times> 'a ranks" where
  "spec_walk graph d draws 0 =
     (uniform_pick (draws 0) (map fst graph), map (\<lambda>(p, ls). (p, 0)) graph)"
| "spec_walk graph d draws (Suc k) =
     (let (node, acc) = spec_walk graph d draws k;
          acc' = map2 (\<lambda>(p, a) (p', t). (p, a + t)) acc (spec_transition graph node d)
      in (weighted_pick (draws (Suc k)) (map fst acc') (map snd acc'), acc'))"

text \<open>Section 4.2, step 4: divide by the sample count, then renormalise.\<close>

definition spec_sample_rank :: "'a corpus \<Rightarrow> real \<Rightarrow> nat \<Rightarrow> (nat \<Rightarrow> real) \<Rightarrow> 'a ranks" where
  "spec_sample_rank graph d sampleCount draws =
     (let acc = snd (spec_walk graph d draws sampleCount);
          avg = map (\<lambda>(p, a). (p, a / real sampleCount)) acc;
          total = sum_list (map snd avg)
      in map (\<lambda>(p, a). (p, a / total)) avg)"

text \<open>
  Section 4.3: \<open>newRank(p) = (1 - d)/N + d * (sum over q with p in targets(q) of
  rank(q)/L(q)) + d * (sum over dangling q of rank(q)/N)\<close>.
\<close>

definition spec_new_rank :: "'a corpus \<Rightarrow> real \<Rightarrow> ('a \<Rightarrow> real) \<Rightarrow> 'a \<Rightarrow> real" where
  "spec_new_rank graph d rank p =
     (1 - d) / real (length graph)
     + d * (\<Sum>(q, ls)\<leftarrow>graph. if p |\<in>| ls then rank q / real (fcard ls) else 0)
     + d * (\<Sum>(q, ls)\<leftarrow>graph. if ls = {||} then rank q / real (length graph) else 0)"

section \<open>Quantities of the convergence argument\<close>

text \<open>
  The definitions of this section are used only in proofs. \<open>rank_of\<close> reads a
  dictionary of ranks as a function; \<open>weight corpus page links\<close> is the share of the
  rank of a page with link set \<open>links\<close> that lines 125 to 128 add to \<open>prob_total\<close>
  for \<open>page\<close>; \<open>flow\<close> is the \<open>prob_total\<close> the inner loop ends with; \<open>residual\<close> is the
  change an update of \<open>page\<close> would make, and \<open>potential\<close> the sum of the absolute
  residuals over the candidate list. \<open>pass_inv\<close> is the invariant of the two loops: the
  dictionary of ranks has the keys of the corpus, and the candidate list holds keys of
  the corpus, each at most once.
\<close>

definition rank_of :: "'a ranks \<Rightarrow> 'a \<Rightarrow> real" where
  "rank_of probabilities page = (case map_of probabilities page of None \<Rightarrow> 0 | Some v \<Rightarrow> v)"

definition weight :: "'a corpus \<Rightarrow> 'a \<Rightarrow> 'a fset \<Rightarrow> real" where
  "weight corpus page links =
     (if links = {||} then 1 / real (length corpus) else 0)
     + (if page |\<in>| links then 1 / real (fcard links) else 0)"

definition flow :: "'a corpus \<Rightarrow> ('a \<Rightarrow> real) \<Rightarrow> 'a \<Rightarrow> real" where
  "flow corpus x page = (\<Sum>(extra, links)\<leftarrow>corpus. weight corpus page links * x extra)"

definition residual :: "'a corpus \<Rightarrow> real \<Rightarrow> ('a \<Rightarrow> real) \<Rightarrow> 'a \<Rightarrow> real" where
  "residual corpus d x page = (1 - d) / real (length corpus) + d * flow corpus x page - x page"

definition potential :: "'a corpus \<Rightarrow> real \<Rightarrow> ('a \<Rightarrow> real) \<Rightarrow> 'a list \<Rightarrow> real" where
  "potential corpus d x candidates = (\<Sum>page\<leftarrow>candidates. \<bar>residual corpus d x page\<bar>)"

definition pass_inv :: "'a corpus \<Rightarrow> 'a list \<Rightarrow> 'a ranks \<Rightarrow> bool" where
  "pass_inv corpus candidates probabilities =
     (map fst probabilities = map fst corpus \<and> distinct candidates
      \<and> set candidates \<subseteq> set (map fst corpus))"

section \<open>Dictionaries\<close>

lemma dict_get_Some: "dict_get d k = Inr v \<longleftrightarrow> map_of d k = Some v"
  by (simp add: dict_get_def split: option.splits)

lemma dict_get_KeyError: "dict_get d k = Inl e \<longleftrightarrow> e = KeyError \<and> k \<notin> fst ` set d"
proof (cases "map_of d k")
  case None
  moreover from None have "k \<notin> fst ` set d" by (simp add: map_of_eq_None_iff)
  ultimately show ?thesis by (auto simp: dict_get_def)
next
  case (Some v)
  then have "k \<in> fst ` set d" using map_of_eq_None_iff [of d k] by auto
  with Some show ?thesis by (simp add: dict_get_def)
qed

lemma dict_get_mem: "dict_get d k = Inr v \<Longrightarrow> (k, v) \<in> set d"
  by (auto simp: dict_get_def split: option.splits dest: map_of_SomeD)

lemma dict_get_key: "k \<in> fst ` set d \<Longrightarrow> \<exists>v. dict_get d k = Inr v"
  using dict_get_KeyError [of d k] by (cases "dict_get d k") auto

lemma update_fresh: "k \<notin> fst ` set d \<Longrightarrow> AList.update k v d = d @ [(k, v)]"
  by (induction d) auto

lemma assign_each_append:
  "distinct (map fst xs) \<Longrightarrow> fst ` set xs \<inter> fst ` set d = {} \<Longrightarrow>
   assign_each f xs d = d @ map (\<lambda>(pg, links). (pg, f pg)) xs"
proof (induction xs arbitrary: d)
  case Nil
  then show ?case by simp
next
  case (Cons x xs)
  obtain pg links where x: "x = (pg, links)" by (cases x)
  from Cons.prems have fresh: "pg \<notin> fst ` set d" and d: "distinct (map fst xs)"
    and nin: "pg \<notin> fst ` set xs" and disj: "fst ` set xs \<inter> fst ` set d = {}"
    by (auto simp: x)
  have "fst ` set xs \<inter> fst ` set (d @ [(pg, f pg)]) = {}"
    using nin disj by auto
  from Cons.IH [OF d this] show ?case
    by (simp add: x update_fresh [OF fresh])
qed

lemma assign_each_closed:
  "wf_dict corpus \<Longrightarrow> assign_each f corpus [] = map (\<lambda>(pg, links). (pg, f pg)) corpus"
  using assign_each_append [of corpus "[]" f] by (simp add: wf_dict_def)

lemma valid_corpus_links:
  "valid_corpus corpus \<Longrightarrow> dict_get corpus page = Inr links \<Longrightarrow>
   fset links \<subseteq> fst ` set corpus \<and> page |\<notin>| links"
  by (auto simp: valid_corpus_def list_all_iff dest!: dict_get_mem)

lemma sum_list_indicator:
  assumes "distinct (map fst xs)" and "fset links \<subseteq> fst ` set xs"
  shows "(\<Sum>(pg, ls)\<leftarrow>xs. if pg |\<in>| links then c else (0::real)) = real (fcard links) * c"
proof -
  have "(\<Sum>(pg, ls)\<leftarrow>xs. if pg |\<in>| links then c else 0)
        = (\<Sum>pg\<leftarrow>map fst xs. if pg |\<in>| links then c else 0)"
    by (simp add: comp_def case_prod_unfold)
  also have "\<dots> = (\<Sum>pg\<in>set (map fst xs). if pg |\<in>| links then c else 0)"
    using sum_list_distinct_conv_sum_set [OF assms(1)] by simp
  also have "\<dots> = (\<Sum>pg\<in>fset links. c)"
    using assms(2) by (intro sum.mono_neutral_cong_right) auto
  also have "\<dots> = real (fcard links) * c"
    by (simp add: fcard.rep_eq)
  finally show ?thesis .
qed

section \<open>The loops over a dictionary, in closed form\<close>

lemma update_mid:
  "k \<notin> fst ` set xs \<Longrightarrow> AList.update k q (xs @ (k, v) # ys) = xs @ (k, q) # ys"
  by (induction xs) auto

lemma dict_get_mid:
  "k \<notin> fst ` set xs \<Longrightarrow> dict_get (xs @ (k, v) # ys) k = Inr v"
  by (induction xs) (auto simp: dict_get_def)

lemma divide_each_append:
  "distinct (map fst (xs @ ys)) \<Longrightarrow> c \<noteq> 0 \<Longrightarrow>
   divide_each (map fst ys) c (xs @ ys) = Inr (xs @ map (\<lambda>(k, v). (k, v / c)) ys)"
proof (induction ys arbitrary: xs)
  case Nil
  then show ?case by simp
next
  case (Cons y ys)
  obtain k v where y: "y = (k, v)" by (cases y)
  from Cons.prems(1) have fresh: "k \<notin> fst ` set xs"
    and d: "distinct (map fst ((xs @ [(k, v / c)]) @ ys))"
    by (auto simp: y)
  from Cons.IH [OF d Cons.prems(2)] show ?case
    by (simp add: y dict_get_mid [OF fresh] update_mid [OF fresh] true_div_def Cons.prems(2))
qed

lemma divide_each_closed:
  "wf_dict probs \<Longrightarrow> c \<noteq> 0 \<Longrightarrow>
   divide_each (map fst probs) c probs = Inr (map (\<lambda>(k, v). (k, v / c)) probs)"
  using divide_each_append [of "[]" probs c] by (simp add: wf_dict_def)

lemma divide_each_zero:
  "probs \<noteq> [] \<Longrightarrow> divide_each (map fst probs) 0 probs = Inl ZeroDivisionError"
  by (cases probs) (auto simp: dict_get_def true_div_def)

lemma add_each_append:
  "map fst new = map fst ys \<Longrightarrow> distinct (map fst (xs @ ys)) \<Longrightarrow>
   add_each new (xs @ ys) = Inr (xs @ map2 (\<lambda>(k, v) (k', p). (k, v + p)) ys new)"
proof (induction ys arbitrary: xs new)
  case Nil
  then show ?case by simp
next
  case (Cons y ys)
  obtain k v where y: "y = (k, v)" by (cases y)
  from Cons.prems(1) obtain p new' where new: "new = (k, p) # new'"
    and keys: "map fst new' = map fst ys"
    by (cases new) (auto simp: y)
  from Cons.prems(2) have fresh: "k \<notin> fst ` set xs"
    and d: "distinct (map fst ((xs @ [(k, v + p)]) @ ys))"
    by (auto simp: y)
  from Cons.IH [OF keys d] show ?case
    by (simp add: y new dict_get_mid [OF fresh] update_mid [OF fresh])
qed

lemma add_each_closed:
  "map fst new = map fst probs \<Longrightarrow> wf_dict probs \<Longrightarrow>
   add_each new probs = Inr (map2 (\<lambda>(k, v) (k', p). (k, v + p)) probs new)"
  using add_each_append [of new probs "[]"] by (simp add: wf_dict_def)

lemma normalize_closed:
  "wf_dict probs \<Longrightarrow> sum_list (map snd probs) \<noteq> 0 \<Longrightarrow>
   normalize probs = Inr (map (\<lambda>(k, v). (k, v / sum_list (map snd probs))) probs)"
  by (simp add: normalize_def divide_each_closed)

lemma normalize_zero:
  "probs \<noteq> [] \<Longrightarrow> sum_list (map snd probs) = 0 \<Longrightarrow> normalize probs = Inl ZeroDivisionError"
  by (simp add: normalize_def divide_each_zero)

lemma sum_list_divide:
  "sum_list (map snd (map (\<lambda>(k, v). (k, v / c)) probs)) = sum_list (map snd probs) / (c::real)"
  by (induction probs) (auto simp: add_divide_distrib)

lemma keys_divide: "map fst (map (\<lambda>(k, v). (k, v / c)) probs) = map fst probs"
  by (induction probs) auto

lemma normalize_sum:
  assumes "wf_dict probs" and "probs \<noteq> []" and "normalize probs = Inr r"
  shows "sum_list (map snd r) = 1 \<and> map fst r = map fst probs"
proof (cases "sum_list (map snd probs) = 0")
  case True
  with assms(2,3) show ?thesis by (simp add: normalize_zero)
next
  case False
  with assms(1,3) have r: "r = map (\<lambda>(k, v). (k, v / sum_list (map snd probs))) probs"
    by (simp add: normalize_closed)
  have "sum_list (map snd r) = sum_list (map snd probs) / sum_list (map snd probs)"
    by (simp only: r sum_list_divide)
  moreover have "map fst r = map fst probs"
    by (simp only: r keys_divide)
  ultimately show ?thesis using False by simp
qed

section \<open>The transition model: results\<close>

lemma transition_model_closed:
  assumes "wf_dict corpus" and "dict_get corpus page = Inr links"
  shows "transition_model corpus page d =
     Inr (map (\<lambda>(pg, ls). (pg,
       if links = {||} then 1 / real (length corpus)
       else (1 - d) / real (length corpus)
            + (if pg |\<in>| links then d / real (fcard links) else 0))) corpus)"
  using assms by (auto simp: transition_model_def Let_def assign_each_closed)

lemma transition_model_cases:
  assumes "wf_dict corpus" and "dict_get corpus page = Inr links"
  shows "transition_model corpus page d =
     Inr (map (\<lambda>(pg, ls). (pg,
       if links = {||} then 1 / real (length corpus)
       else if pg |\<in>| links then (1 - d) / real (length corpus) + d / real (fcard links)
       else (1 - d) / real (length corpus))) corpus)"
  using assms by (auto simp: transition_model_def Let_def assign_each_closed)

lemma transition_sum:
  assumes "valid_corpus corpus" and "dict_get corpus page = Inr links"
    and "transition_model corpus page d = Inr pr"
  shows "sum_list (map snd pr) = 1"
proof -
  have wf: "wf_dict corpus" using assms(1) by (simp add: valid_corpus_def)
  have ne: "corpus \<noteq> []" using dict_get_mem [OF assms(2)] by auto
  then have N: "real (length corpus) \<noteq> 0" by simp
  have sub: "fset links \<subseteq> fst ` set corpus" using valid_corpus_links [OF assms(1,2)] by simp
  note tm = transition_model_closed [OF wf assms(2), of d]
  show ?thesis
  proof (cases "links = {||}")
    case True
    with tm assms(3) have "pr = map (\<lambda>(pg, ls). (pg, 1 / real (length corpus))) corpus"
      by simp
    then have "map snd pr = map (\<lambda>x. 1 / real (length corpus)) corpus"
      by (simp add: comp_def case_prod_unfold)
    then show ?thesis using N by (simp add: sum_list_triv)
  next
    case False
    then have L: "real (fcard links) \<noteq> 0" by simp
    from False tm assms(3) have "map snd pr =
        map (\<lambda>(pg, ls). (1 - d) / real (length corpus)
              + (if pg |\<in>| links then d / real (fcard links) else 0)) corpus"
      by (auto simp: comp_def case_prod_unfold)
    then have "sum_list (map snd pr) =
        (\<Sum>(pg, ls)\<leftarrow>corpus. (1 - d) / real (length corpus))
        + (\<Sum>(pg, ls)\<leftarrow>corpus. if pg |\<in>| links then d / real (fcard links) else 0)"
      by (simp add: case_prod_unfold sum_list_addf)
    also have "(\<Sum>(pg, ls)\<leftarrow>corpus. (1 - d) / real (length corpus)) = 1 - d"
      using N by (simp add: case_prod_unfold sum_list_triv)
    also have "(\<Sum>(pg, ls)\<leftarrow>corpus. if pg |\<in>| links then d / real (fcard links) else 0) = d"
      using sum_list_indicator [OF _ sub, of "d / real (fcard links)"] wf L
      by (simp add: wf_dict_def)
    finally show ?thesis by simp
  qed
qed

text \<open>
  Claim C2. For a page of the corpus, \<open>transition_model\<close> returns, in the order of the
  corpus, the uniform distribution \<open>1 / N\<close> when the page has no links, whatever the
  damping factor; otherwise \<open>(1 - d) / N + d / L\<close> for a page it links to and
  \<open>(1 - d) / N\<close> for every other page, \<open>L\<close> being the number of its links.
\<close>

theorem transition_model_formula:
  assumes "wf_dict corpus" and "dict_get corpus page = Inr links"
  shows "transition_model corpus page d =
     Inr (map (\<lambda>(pg, ls). (pg,
       if links = {||} then 1 / real (length corpus)
       else if pg |\<in>| links then (1 - d) / real (length corpus) + d / real (fcard links)
       else (1 - d) / real (length corpus))) corpus)"
  by (rule transition_model_cases [OF assms])

theorem transition_model_formula_witness:
  "wf_dict [(''A'', {|''B''|}), (''B'', {||})]
   \<and> dict_get [(''A'', {|''B''|}), (''B'', {||})] ''A'' = Inr {|''B''|}
   \<and> dict_get [(''A'', {|''B''|}), (''B'', {||})] ''B'' = Inr {||}
   \<and> transition_model [(''A'', {|''B''|}), (''B'', {||})] ''A'' (17 / 20)
       = Inr [(''A'', 3 / 40), (''B'', 37 / 40)]
   \<and> transition_model [(''A'', {|''B''|}), (''B'', {||})] ''B'' (17 / 20)
       = Inr [(''A'', 1 / 2), (''B'', 1 / 2)]"
proof -
  have wf: "wf_dict [(''A'', {|''B''|}), (''B'', {||})]"
    by (simp add: wf_dict_def)
  have a: "dict_get [(''A'', {|''B''|}), (''B'', {||})] ''A'' = Inr {|''B''|}"
    by (simp add: dict_get_def)
  have b: "dict_get [(''A'', {|''B''|}), (''B'', {||})] ''B'' = Inr {||}"
    by (simp add: dict_get_def)
  show ?thesis
    using wf a b transition_model_formula [OF wf a, of "17 / 20"]
      transition_model_formula [OF wf b, of "17 / 20"]
    by (simp add: fcard_finsert_if fcard_fempty)
qed

text \<open>
  Claim C5, as amended. For a page of a valid corpus and a damping factor \<open>0 \<le> d < 1\<close>,
  the distribution \<open>transition_model\<close> returns sums to 1 and gives every page of the
  corpus a strictly positive probability. (At \<open>d = 1\<close> the second half fails, as the
  example further down shows.)
\<close>

theorem transition_model_distribution:
  assumes "valid_corpus corpus" and "page \<in> set (map fst corpus)"
    and "0 \<le> d" and "d < 1"
  shows "\<exists>pr. transition_model corpus page d = Inr pr
           \<and> map fst pr = map fst corpus
           \<and> sum_list (map snd pr) = 1
           \<and> (\<forall>(pg, p) \<in> set pr. 0 < p)"
proof -
  have wf: "wf_dict corpus" using assms(1) by (simp add: valid_corpus_def)
  from assms(2) obtain links where links: "dict_get corpus page = Inr links"
    using dict_get_key [of page corpus] by auto
  have ne: "corpus \<noteq> []" using dict_get_mem [OF links] by auto
  then have N: "0 < real (length corpus)" by simp
  define pr where "pr = map (\<lambda>(pg, ls). (pg,
       if links = {||} then 1 / real (length corpus)
       else (1 - d) / real (length corpus)
            + (if pg |\<in>| links then d / real (fcard links) else 0))) corpus"
  have tm: "transition_model corpus page d = Inr pr"
    unfolding pr_def by (rule transition_model_closed [OF wf links])
  have keys: "map fst pr = map fst corpus"
    by (simp add: pr_def comp_def case_prod_unfold)
  have base: "0 < (1 - d) / real (length corpus)"
    using N assms(4) by simp
  have "0 \<le> d / real (fcard links)"
    using assms(3) by simp
  with base N have pos: "\<forall>(pg, p) \<in> set pr. 0 < p"
    by (auto simp: pr_def add_pos_nonneg)
  from tm keys transition_sum [OF assms(1) links tm] pos show ?thesis by blast
qed

theorem transition_model_distribution_witness:
  "valid_corpus [(''A'', {|''B''|}), (''B'', {||})]
   \<and> ''A'' \<in> set (map fst [(''A'', {|''B''|}), (''B'', {||})])
   \<and> (0::real) \<le> 17 / 20 \<and> (17::real) / 20 < 1
   \<and> (\<exists>pr. transition_model [(''A'', {|''B''|}), (''B'', {||})] ''A'' (17 / 20) = Inr pr
           \<and> map fst pr = [''A'', ''B'']
           \<and> sum_list (map snd pr) = 1
           \<and> (\<forall>(pg, p) \<in> set pr. 0 < p))"
proof -
  have v: "valid_corpus [(''A'', {|''B''|}), (''B'', {||})]"
    by (simp add: valid_corpus_def wf_dict_def)
  have k: "''A'' \<in> set (map fst [(''A'', {|''B''|}), (''B'', {||})])"
    by simp
  have d: "(0::real) \<le> 17 / 20" "(17::real) / 20 < 1"
    by simp_all
  show ?thesis
    using v k d transition_model_distribution [OF v k d] by simp
qed

text \<open>
  Claim C5 as stated, refuted: the corpus is valid, the page is one of its keys and the
  damping factor 1 lies in \<open>[0, 1]\<close>, yet page \<open>A\<close> gets probability 0.
\<close>

theorem transition_model_zero_probability:
  "valid_corpus [(''A'', {|''B''|}), (''B'', {|''A''|})]
   \<and> ''A'' \<in> set (map fst [(''A'', {|''B''|}), (''B'', {|''A''|})])
   \<and> transition_model [(''A'', {|''B''|}), (''B'', {|''A''|})] ''A'' 1
       = Inr [(''A'', 0), (''B'', 1)]"
  by (simp add: valid_corpus_def wf_dict_def transition_model_def dict_get_def fcard_finsert_if fcard_fempty)

text \<open>
  Claim C8. When the page is not a key of the corpus, and so in particular when the
  corpus is empty, \<open>transition_model\<close> fails: the lookup \<^verbatim>\<open>corpus[page]\<close> of line 62
  raises before any value is computed, and nothing catches it. The exception is Python's
  \<^verbatim>\<open>KeyError\<close>, the form the invalid argument takes in the code.
\<close>

theorem transition_model_invalid_page:
  assumes "page \<notin> set (map fst corpus) \<or> corpus = []"
  shows "transition_model corpus page d = Inl KeyError"
proof -
  from assms have "page \<notin> fst ` set corpus" by auto
  then have "dict_get corpus page = Inl KeyError"
    by (simp add: dict_get_KeyError)
  then show ?thesis by (simp add: transition_model_def)
qed

theorem transition_model_invalid_page_witness:
  "''C'' \<notin> set (map fst [(''A'', {|''B''|}), (''B'', {||})])
   \<and> transition_model [(''A'', {|''B''|}), (''B'', {||})] ''C'' (17 / 20) = Inl KeyError
   \<and> transition_model ([] :: string corpus) ''A'' (17 / 20) = Inl KeyError"
proof -
  have h: "''C'' \<notin> set (map fst [(''A'', {|''B''|}), (''B'', {||})])
      \<or> [(''A'', {|''B''|}), (''B'', {||})] = []"
    by simp
  have e: "''A'' \<notin> set (map fst ([] :: string corpus)) \<or> ([] :: string corpus) = []"
    by simp
  show ?thesis
    using transition_model_invalid_page [OF h, of "17 / 20"]
      transition_model_invalid_page [OF e, of "17 / 20"]
    by simp
qed

section \<open>The sampling estimator: results\<close>

lemma capped_nth_mem: "xs \<noteq> [] \<Longrightarrow> xs ! min a (length xs - 1) \<in> set xs"
proof -
  assume "xs \<noteq> []"
  then have "min a (length xs - 1) < length xs" by (cases xs) auto
  then show ?thesis by (rule nth_mem)
qed

lemma uniform_pick_mem: "xs \<noteq> [] \<Longrightarrow> uniform_pick u xs \<in> set xs"
  unfolding uniform_pick_def by (rule capped_nth_mem)

lemma weighted_pick_mem: "xs \<noteq> [] \<Longrightarrow> weighted_pick u xs ws \<in> set xs"
  unfolding weighted_pick_def Let_def by (rule capped_nth_mem)

lemma accumulate_Nil: "accumulate acc ws = [] \<longleftrightarrow> ws = []"
  by (cases ws) auto

lemma last_accumulate: "ws \<noteq> [] \<Longrightarrow> last (accumulate acc ws) = acc + sum_list ws"
  by (induction ws arbitrary: acc) (auto simp: add.assoc accumulate_Nil)

lemma targets_dict_get: "dict_get corpus page = Inr links \<Longrightarrow> targets corpus page = links"
  by (simp add: dict_get_Some targets_def)

lemma transition_model_spec:
  assumes "wf_dict corpus" and "page \<in> set (map fst corpus)"
  shows "transition_model corpus page d = Inr (spec_transition corpus page d)"
proof -
  from assms(2) obtain links where links: "dict_get corpus page = Inr links"
    using dict_get_key [of page corpus] by auto
  show ?thesis
    unfolding spec_transition_def targets_dict_get [OF links]
    by (rule transition_model_cases [OF assms(1) links])
qed

lemma keys_spec_transition: "map fst (spec_transition corpus page d) = map fst corpus"
  by (simp add: spec_transition_def comp_def case_prod_unfold)

lemma keys_map2_add:
  "map fst ys = map fst xs \<Longrightarrow> map fst (map2 (\<lambda>(p, a) (p', t). (p, a + t)) xs ys) = map fst xs"
proof (induction xs arbitrary: ys)
  case Nil then show ?case by simp
next
  case (Cons x xs) then show ?case by (cases ys) (auto simp: case_prod_unfold)
qed

lemma sum_map2_add:
  "map fst ys = map fst xs \<Longrightarrow>
   sum_list (map snd (map2 (\<lambda>(p, a) (p', t). (p, a + t)) xs ys))
     = sum_list (map snd xs) + sum_list (map snd (ys :: ('a \<times> real) list))"
proof (induction xs arbitrary: ys)
  case Nil then show ?case by simp
next
  case (Cons x xs) then show ?case by (cases ys) (auto simp: case_prod_unfold)
qed

lemma spec_walk_invariant:
  assumes "valid_corpus corpus" and "corpus \<noteq> []"
  shows "fst (spec_walk corpus d draws k) \<in> set (map fst corpus)
       \<and> map fst (snd (spec_walk corpus d draws k)) = map fst corpus
       \<and> sum_list (map snd (snd (spec_walk corpus d draws k))) = real k"
proof (induction k)
  case 0
  from assms(2) have "map fst corpus \<noteq> []" by simp
  from uniform_pick_mem [OF this, of "draws 0"] show ?case
    by (simp add: comp_def case_prod_unfold)
next
  case (Suc k)
  obtain node acc where w: "spec_walk corpus d draws k = (node, acc)"
    by (cases "spec_walk corpus d draws k")
  from Suc w have node: "node \<in> set (map fst corpus)" and keys: "map fst acc = map fst corpus"
    and total: "sum_list (map snd acc) = real k"
    by simp_all
  have wf: "wf_dict corpus" using assms(1) by (simp add: valid_corpus_def)
  obtain links where links: "dict_get corpus node = Inr links"
    using node dict_get_key [of node corpus] by auto
  have tm: "transition_model corpus node d = Inr (spec_transition corpus node d)"
    by (rule transition_model_spec [OF wf node])
  have tsum: "sum_list (map snd (spec_transition corpus node d)) = 1"
    by (rule transition_sum [OF assms(1) links tm])
  define acc' where "acc' = map2 (\<lambda>(p, a) (p', t). (p, a + t)) acc (spec_transition corpus node d)"
  have k': "map fst acc' = map fst corpus"
    unfolding acc'_def using keys_map2_add [of "spec_transition corpus node d" acc]
    by (simp only: keys keys_spec_transition)
  have s': "sum_list (map snd acc') = real (Suc k)"
  proof -
    have "sum_list (map snd acc') = sum_list (map snd acc)
        + sum_list (map snd (spec_transition corpus node d))"
      unfolding acc'_def
      by (rule sum_map2_add) (simp only: keys keys_spec_transition)
    with total tsum show ?thesis by simp
  qed
  have ne: "map fst acc' \<noteq> []" using k' assms(2) by simp
  have sw: "spec_walk corpus d draws (Suc k)
      = (weighted_pick (draws (Suc k)) (map fst acc') (map snd acc'), acc')"
    by (simp add: w acc'_def Let_def)
  have "weighted_pick (draws (Suc k)) (map fst acc') (map snd acc') \<in> set (map fst corpus)"
    using weighted_pick_mem [OF ne] k' by metis
  with k' s' show ?case unfolding sw by simp
qed

lemma sample_loop_step:
  assumes "valid_corpus corpus" and "corpus \<noteq> []" and "int i < n"
  shows "sample_loop corpus d n draws i (snd (spec_walk corpus d draws i))
       = sample_loop corpus d n draws (Suc i) (snd (spec_walk corpus d draws (Suc i)))"
proof -
  obtain node acc where w: "spec_walk corpus d draws i = (node, acc)"
    by (cases "spec_walk corpus d draws i")
  from spec_walk_invariant [OF assms(1,2), of d draws i] w
  have node: "node \<in> set (map fst corpus)" and keys: "map fst acc = map fst corpus"
    and total: "sum_list (map snd acc) = real i"
    by simp_all
  have wf: "wf_dict corpus" using assms(1) by (simp add: valid_corpus_def)
  have wfa: "wf_dict acc" using wf keys by (simp add: wf_dict_def)
  have ne: "map fst acc \<noteq> []" using keys assms(2) by simp
  then have ne': "map snd acc \<noteq> []" by simp
  have pick: "(if i = 0 then random_choice (draws i) (map fst acc)
               else random_choices (draws i) (map fst acc) (map snd acc)) = Inr node"
  proof (cases i)
    case 0
    with w ne keys show ?thesis by (simp add: random_choice_def)
  next
    case (Suc k)
    obtain node0 acc0 where w0: "spec_walk corpus d draws k = (node0, acc0)"
      by (cases "spec_walk corpus d draws k")
    from w Suc w0 have "node = weighted_pick (draws i) (map fst acc) (map snd acc)"
      by (auto simp: Let_def)
    moreover have "last (accumulate 0 (map snd acc)) = real i"
      using last_accumulate [OF ne', of 0] total by simp
    ultimately show ?thesis using Suc ne by (simp add: random_choices_def)
  qed
  have tm: "transition_model corpus node d = Inr (spec_transition corpus node d)"
    by (rule transition_model_spec [OF wf node])
  have add: "add_each (spec_transition corpus node d) acc
      = Inr (map2 (\<lambda>(p, a) (p', t). (p, a + t)) acc (spec_transition corpus node d))"
    by (rule add_each_closed) (simp_all add: keys keys_spec_transition wfa)
  have next_acc: "snd (spec_walk corpus d draws (Suc i))
      = map2 (\<lambda>(p, a) (p', t). (p, a + t)) acc (spec_transition corpus node d)"
    by (simp add: w Let_def)
  show ?thesis
    apply (subst sample_loop.simps)
    apply (simp only: assms(3) if_True w snd_conv pick tm add sum.case next_acc)
    apply simp
    done
qed

lemma sample_loop_spec:
  assumes "valid_corpus corpus" and "corpus \<noteq> []" and "int i + int k = n"
  shows "sample_loop corpus d n draws i (snd (spec_walk corpus d draws i))
       = Inr (snd (spec_walk corpus d draws (i + k)))"
  using assms(3)
proof (induction k arbitrary: i)
  case 0
  then show ?case by (subst sample_loop.simps) simp
next
  case (Suc k)
  then have lt: "int i < n" and rest: "int (Suc i) + int k = n" by simp_all
  show ?case
    using sample_loop_step [OF assms(1,2) lt, of d draws] Suc.IH [OF rest] by simp
qed

lemma wf_dict_keys: "map fst xs = map fst ys \<Longrightarrow> wf_dict ys \<Longrightarrow> wf_dict xs"
  by (simp add: wf_dict_def)

lemma sample_pagerank_valid:
  assumes "valid_corpus corpus" and "corpus \<noteq> []" and "0 < n"
  shows "sample_pagerank corpus d n draws = Inr (spec_sample_rank corpus d (nat n) draws)"
proof -
  have wf: "wf_dict corpus" using assms(1) by (simp add: valid_corpus_def)
  define acc where "acc = snd (spec_walk corpus d draws (nat n))"
  define avg where "avg = map (\<lambda>(p, a). (p, a / real (nat n))) acc"
  from spec_walk_invariant [OF assms(1,2), of d draws "nat n"]
  have keys: "map fst acc = map fst corpus" and total: "sum_list (map snd acc) = real (nat n)"
    by (simp_all add: acc_def)
  have wfa: "wf_dict acc" by (rule wf_dict_keys [OF keys wf])
  have init: "assign_each (\<lambda>page. 0) corpus [] = snd (spec_walk corpus d draws 0)"
    by (simp add: assign_each_closed [OF wf])
  have "int 0 + int (nat n) = n" using assms(3) by simp
  from sample_loop_spec [OF assms(1,2) this, of d draws]
  have loop: "sample_loop corpus d n draws 0 (assign_each (\<lambda>page. 0) corpus []) = Inr acc"
    by (simp add: init acc_def)
  have n: "real_of_int n = real (nat n)" "real (nat n) \<noteq> 0" using assms(3) by simp_all
  have div: "divide_each (map fst acc) (real_of_int n) acc = Inr avg"
    unfolding avg_def n(1) by (rule divide_each_closed [OF wfa n(2)])
  have kavg: "map fst avg = map fst acc" unfolding avg_def by (rule keys_divide)
  have wfavg: "wf_dict avg" by (rule wf_dict_keys [OF kavg wfa])
  have "sum_list (map snd avg) = real (nat n) / real (nat n)"
    unfolding avg_def by (simp only: sum_list_divide total)
  then have one: "sum_list (map snd avg) \<noteq> 0" using n(2) by simp
  have norm: "normalize avg = Inr (map (\<lambda>(k, v). (k, v / sum_list (map snd avg))) avg)"
    by (rule normalize_closed [OF wfavg one])
  have spec: "spec_sample_rank corpus d (nat n) draws
      = map (\<lambda>(k, v). (k, v / sum_list (map snd avg))) avg"
    by (simp add: spec_sample_rank_def Let_def acc_def avg_def)
  show ?thesis
    by (simp add: sample_pagerank_def loop div norm spec)
qed

lemma assign_each_nonempty: "corpus \<noteq> [] \<or> pr \<noteq> [] \<Longrightarrow> assign_each f corpus pr \<noteq> []"
proof (induction corpus arbitrary: pr)
  case Nil then show ?case by simp
next
  case (Cons x xs)
  obtain pg links where x: "x = (pg, links)" by (cases x)
  have "AList.update pg (f pg) pr \<noteq> []" by (cases pr) auto
  with Cons.IH [of "AList.update pg (f pg) pr"] show ?case by (simp add: x)
qed

text \<open>
  Claim C3. On a valid, non-empty corpus and for a positive sample count,
  \<open>sample_pagerank\<close> returns what the specification's algorithm computes: the
  accumulator starts at 0 everywhere, the first node is picked uniformly among all
  nodes, each of the \<open>n\<close> repetitions adds the whole transition distribution of the
  tracked node to the accumulator and picks the next node with the accumulator's running
  values as weights; the accumulator is then divided by \<open>n\<close> and renormalised. No
  sequence of draws makes it fail.
\<close>

theorem sample_pagerank_follows_spec:
  assumes "valid_corpus corpus" and "corpus \<noteq> []" and "0 < n"
  shows "sample_pagerank corpus d n draws = Inr (spec_sample_rank corpus d (nat n) draws)"
  by (rule sample_pagerank_valid [OF assms])

theorem sample_pagerank_follows_spec_witness:
  "valid_corpus [(''A'', {|''B''|}), (''B'', {||})]
   \<and> [(''A'', {|''B''|}), (''B'', {||})] \<noteq> []
   \<and> (0::int) < 2
   \<and> sample_pagerank [(''A'', {|''B''|}), (''B'', {||})] (17 / 20) 2 (\<lambda>i. 0)
       = Inr [(''A'', 3 / 40), (''B'', 37 / 40)]"
proof -
  have v: "valid_corpus [(''A'', {|''B''|}), (''B'', {||})]"
    by (simp add: valid_corpus_def wf_dict_def)
  have ne: "[(''A'', {|''B''|}), (''B'', {||})] \<noteq> []"
    by simp
  have n: "(0::int) < 2"
    by simp
  have "spec_sample_rank [(''A'', {|''B''|}), (''B'', {||})] (17 / 20) 2 (\<lambda>i. 0)
      = [(''A'', 3 / 40), (''B'', 37 / 40)]"
    by (simp add: spec_sample_rank_def numeral_2_eq_2 Let_def uniform_pick_def weighted_pick_def
        spec_transition_def targets_def fcard_finsert_if fcard_fempty bisect_def)
  with v ne n sample_pagerank_follows_spec [OF v ne n, of "17 / 20" "\<lambda>i. 0"]
  show ?thesis by simp
qed

lemma sample_pagerank_failures:
  "(wf_dict (corpus :: 'a corpus) \<and> corpus \<noteq> [] \<and> n \<le> 0 \<longrightarrow>
      sample_pagerank corpus d n draws = Inl ZeroDivisionError)
   \<and> (0 < n \<longrightarrow> sample_pagerank ([] :: 'a corpus) d n draws = Inl IndexError)
   \<and> (n \<le> 0 \<longrightarrow> sample_pagerank ([] :: 'a corpus) d n draws = Inr [])"
proof (intro conjI impI)
  assume a: "wf_dict corpus \<and> corpus \<noteq> [] \<and> n \<le> 0"
  define init where "init = map (\<lambda>(pg, links :: 'a fset). (pg, 0::real)) corpus"
  from a have init: "assign_each (\<lambda>page. 0) corpus [] = init"
    by (simp add: assign_each_closed init_def)
  from a have ne: "init \<noteq> []" by (simp add: init_def)
  have wfi: "wf_dict init" using a by (simp add: init_def wf_dict_def comp_def case_prod_unfold)
  have z: "sum_list (map snd init) = 0"
    by (simp add: init_def comp_def case_prod_unfold)
  from a have loop: "sample_loop corpus d n draws 0 init = Inr init"
    by (subst sample_loop.simps) simp
  show "sample_pagerank corpus d n draws = Inl ZeroDivisionError"
  proof (cases "n = 0")
    case True
    with loop have "sample_loop corpus d 0 draws 0 init = Inr init" by simp
    with True show ?thesis
      by (simp add: sample_pagerank_def init divide_each_zero [OF ne])
  next
    case False
    then have nz: "real_of_int n \<noteq> 0" by simp
    define avg where "avg = map (\<lambda>(k, v). (k, v / real_of_int n)) init"
    have div: "divide_each (map fst init) (real_of_int n) init = Inr avg"
      unfolding avg_def by (rule divide_each_closed [OF wfi nz])
    have "avg \<noteq> []" using ne by (simp add: avg_def)
    moreover have "sum_list (map snd avg) = 0"
      unfolding avg_def by (simp only: sum_list_divide z div_0)
    ultimately have "normalize avg = Inl ZeroDivisionError" by (rule normalize_zero)
    then show ?thesis by (simp add: sample_pagerank_def init loop div)
  qed
next
  assume "0 < n"
  then have "sample_loop ([] :: 'a corpus) d n draws 0 [] = Inl IndexError"
    by (subst sample_loop.simps) (simp add: random_choice_def)
  then show "sample_pagerank ([] :: 'a corpus) d n draws = Inl IndexError"
    by (simp add: sample_pagerank_def)
next
  assume "n \<le> 0"
  then have "sample_loop ([] :: 'a corpus) d n draws 0 [] = Inr []"
    by (subst sample_loop.simps) simp
  then show "sample_pagerank ([] :: 'a corpus) d n draws = Inr []"
    by (simp add: sample_pagerank_def normalize_def)
qed

text \<open>
  Claim C9, as amended. \<open>sample_pagerank\<close> validates nothing. With a non-empty corpus and
  a sample count \<open>n \<le> 0\<close> it fails with \<^verbatim>\<open>ZeroDivisionError\<close> (at line 99 when
  \<open>n = 0\<close>, at line 102 when \<open>n < 0\<close>, where the total is 0). With an empty corpus and
  \<open>n > 0\<close> it fails with \<^verbatim>\<open>IndexError\<close>, raised by \<^verbatim>\<open>random.choice\<close> on the empty
  list of keys. With an empty corpus and \<open>n \<le> 0\<close> it does not fail: it returns the
  empty dictionary.
\<close>

theorem sample_pagerank_invalid:
  "(wf_dict (corpus :: 'a corpus) \<and> corpus \<noteq> [] \<and> n \<le> 0 \<longrightarrow>
      sample_pagerank corpus d n draws = Inl ZeroDivisionError)
   \<and> (0 < n \<longrightarrow> sample_pagerank ([] :: 'a corpus) d n draws = Inl IndexError)
   \<and> (n \<le> 0 \<longrightarrow> sample_pagerank ([] :: 'a corpus) d n draws = Inr [])"
  by (rule sample_pagerank_failures)

theorem sample_pagerank_invalid_witness:
  "sample_pagerank [(''A'', {|''B''|}), (''B'', {||})] (17 / 20) 0 (\<lambda>i. 0)
     = Inl ZeroDivisionError
   \<and> sample_pagerank [(''A'', {|''B''|}), (''B'', {||})] (17 / 20) (- 3) (\<lambda>i. 0)
     = Inl ZeroDivisionError
   \<and> sample_pagerank ([] :: string corpus) (17 / 20) 5 (\<lambda>i. 0) = Inl IndexError
   \<and> sample_pagerank ([] :: string corpus) (17 / 20) (- 1) (\<lambda>i. 0) = Inr []"
  using sample_pagerank_invalid [of "[(''A'', {|''B''|}), (''B'', {||})]" 0 "17 / 20" "\<lambda>i. 0"]
    sample_pagerank_invalid [of "[(''A'', {|''B''|}), (''B'', {||})]" "- 3" "17 / 20" "\<lambda>i. 0"]
    sample_pagerank_invalid [of "[] :: string corpus" 5 "17 / 20" "\<lambda>i. 0"]
    sample_pagerank_invalid [of "[] :: string corpus" "- 1" "17 / 20" "\<lambda>i. 0"]
  by (simp add: wf_dict_def)

text \<open>
  Claim C9 as stated, refuted: the corpus is empty and the sample count is 0, and
  \<open>sample_pagerank\<close> returns the empty dictionary instead of failing.
\<close>

theorem sample_pagerank_empty_returns:
  "sample_pagerank ([] :: string corpus) (17 / 20) 0 (\<lambda>i. 0) = Inr []"
proof -
  have "sample_loop ([] :: string corpus) (17 / 20) 0 (\<lambda>i. 0) 0 [] = Inr []"
    by (subst sample_loop.simps) simp
  then show ?thesis by (simp add: sample_pagerank_def normalize_def)
qed

section \<open>The iterative estimator: the new rank and the potential\<close>

lemma dict_get_rank_of: "dict_get probs k = Inr v \<Longrightarrow> rank_of probs k = v"
  by (simp add: dict_get_Some rank_of_def)

lemma prob_total_loop_closed:
  "fst ` set items \<subseteq> fst ` set probs \<Longrightarrow>
   prob_total_loop corpus probs page items acc
     = Inr (acc + (\<Sum>(extra, links)\<leftarrow>items. weight corpus page links * rank_of probs extra))"
proof (induction items arbitrary: acc)
  case Nil
  then show ?case by simp
next
  case (Cons it items)
  obtain extra links where it: "it = (extra, links)" by (cases it)
  from Cons.prems have mem: "extra \<in> fst ` set probs"
    and sub: "fst ` set items \<subseteq> fst ` set probs"
    by (simp_all add: it)
  from dict_get_key [OF mem] obtain r where r: "dict_get probs extra = Inr r" ..
  have ro: "rank_of probs extra = r" by (rule dict_get_rank_of [OF r])
  have step: "prob_total_loop corpus probs page ((extra, links) # items) acc
      = prob_total_loop corpus probs page items (acc + weight corpus page links * r)"
  proof (cases "links = {||}")
    case True
    then show ?thesis by (simp add: r weight_def)
  next
    case False
    then show ?thesis by (simp add: r weight_def)
  qed
  show ?case
    unfolding it step Cons.IH [OF sub] by (simp add: ro)
qed

lemma new_rank_closed:
  "fst ` set corpus \<subseteq> fst ` set probs \<Longrightarrow>
   new_rank corpus d probs page
     = Inr ((1 - d) / real (length corpus) + d * flow corpus (rank_of probs) page)"
  by (simp add: new_rank_def prob_total_loop_closed flow_def)

lemma rank_of_update: "rank_of (AList.update k v probs) = (rank_of probs)(k := v)"
  by (rule ext) (simp add: rank_of_def update_conv')

lemma keys_update: "k \<in> fst ` set probs \<Longrightarrow> map fst (AList.update k v probs) = map fst probs"
  by (simp add: update_keys)

lemma flow_update_items:
  "distinct (map fst items) \<Longrightarrow> (p, Tp) \<in> set items \<Longrightarrow>
   (\<Sum>(extra, links)\<leftarrow>items. weight corpus j links * (x(p := v)) extra)
     = (\<Sum>(extra, links)\<leftarrow>items. weight corpus j links * x extra)
       + weight corpus j Tp * (v - x p)"
proof (induction items)
  case Nil
  then show ?case by simp
next
  case (Cons it items)
  obtain extra links where it: "it = (extra, links)" by (cases it)
  show ?case
  proof (cases "extra = p")
    case True
    with Cons.prems it have Tp: "links = Tp" and nin: "p \<notin> fst ` set items"
      by (auto simp: rev_image_eqI)
    have "(\<Sum>(extra, links)\<leftarrow>items. weight corpus j links * (x(p := v)) extra)
        = (\<Sum>(extra, links)\<leftarrow>items. weight corpus j links * x extra)"
      using nin by (intro arg_cong [where f = sum_list] map_cong) (auto simp: rev_image_eqI)
    then show ?thesis by (simp add: it True Tp algebra_simps)
  next
    case False
    with Cons.prems it have "(p, Tp) \<in> set items" and "distinct (map fst items)" by auto
    from Cons.IH [OF this(2,1)] False show ?thesis by (simp add: it)
  qed
qed

lemma flow_update:
  "wf_dict corpus \<Longrightarrow> (p, Tp) \<in> set corpus \<Longrightarrow>
   flow corpus (x(p := v)) j = flow corpus x j + weight corpus j Tp * (v - x p)"
  unfolding flow_def wf_dict_def by (rule flow_update_items)

lemma residual_update:
  assumes "wf_dict corpus" and "(p, Tp) \<in> set corpus"
  shows "residual corpus d (x(p := x p + r)) j
       = residual corpus d x j + d * weight corpus j Tp * r - (if j = p then r else 0)"
  by (simp add: residual_def flow_update [OF assms] algebra_simps)

lemma weight_nonneg: "0 \<le> weight corpus j links"
  by (simp add: weight_def)

lemma sum_list_member_indicator_if:
  "distinct xs \<Longrightarrow> (\<Sum>j\<leftarrow>xs. if j = p then c else (0::real)) = (if p \<in> set xs then c else 0)"
  by (induction xs) auto

lemma sum_list_member_indicator:
  "distinct xs \<Longrightarrow> p \<in> set xs \<Longrightarrow> (\<Sum>j\<leftarrow>xs. if j = p then c else (0::real)) = c"
  by (simp add: sum_list_member_indicator_if)

lemma sum_list_fset_indicator_le:
  assumes "distinct xs"
  shows "(\<Sum>j\<leftarrow>xs. if j |\<in>| links then (1::real) else 0) \<le> real (fcard links)"
proof -
  have "(\<Sum>j\<leftarrow>xs. if j |\<in>| links then (1::real) else 0)
      = (\<Sum>j\<in>set xs. if j |\<in>| links then 1 else 0)"
    using sum_list_distinct_conv_sum_set [OF assms] by simp
  also have "\<dots> = real (card (set xs \<inter> fset links))"
    by (simp add: sum.If_cases Int_def)
  also have "\<dots> \<le> real (card (fset links))"
    by (simp add: card_mono)
  finally show ?thesis by (simp add: fcard.rep_eq)
qed

lemma weight_column_le:
  assumes "distinct cands" and "set cands \<subseteq> fst ` set corpus" and "wf_dict corpus"
  shows "(\<Sum>j\<leftarrow>cands. weight corpus j links) \<le> 1"
proof (cases "links = {||}")
  case True
  have "length cands = card (set cands)" using assms(1) by (simp add: distinct_card)
  also have "\<dots> \<le> card (fst ` set corpus)" using assms(2) by (simp add: card_mono)
  also have "\<dots> \<le> length corpus" by (metis card_length length_map set_map)
  finally have le: "length cands \<le> length corpus" .
  have "(\<Sum>j\<leftarrow>cands. weight corpus j links) = real (length cands) / real (length corpus)"
    using True by (simp add: weight_def sum_list_triv)
  also have "\<dots> \<le> 1" using le by (simp add: divide_le_eq_1)
  finally show ?thesis .
next
  case False
  then have L: "0 < real (fcard links)" using fcard_0_eq [of links] by auto
  have "(\<Sum>j\<leftarrow>cands. weight corpus j links)
      = (\<Sum>j\<leftarrow>cands. (if j |\<in>| links then 1 else 0) / real (fcard links))"
    using False by (intro arg_cong [where f = sum_list] map_cong) (auto simp: weight_def)
  also have "\<dots> = (\<Sum>j\<leftarrow>cands. if j |\<in>| links then 1 else 0) / real (fcard links)"
    by (induction cands) (simp_all add: add_divide_distrib)
  also have "\<dots> \<le> 1"
    using sum_list_fset_indicator_le [OF assms(1), of links] L by (simp add: divide_le_eq_1)
  finally show ?thesis .
qed

lemma potential_nonneg: "0 \<le> potential corpus d x cands"
  unfolding potential_def by (rule sum_list_nonneg) auto

lemma potential_remove1: "potential corpus d x (remove1 p cands) \<le> potential corpus d x cands"
  unfolding potential_def by (induction cands) auto

lemma residual_abs_update:
  assumes "wf_dict corpus" and "(p, Tp) \<in> set corpus"
  shows "\<bar>residual corpus d (x(p := x p + residual corpus d x p)) j\<bar>
       \<le> \<bar>residual corpus d x j\<bar> + (\<bar>d\<bar> * \<bar>residual corpus d x p\<bar>) * weight corpus j Tp
          - (if j = p then \<bar>residual corpus d x p\<bar> else 0)"
proof -
  define r where "r = residual corpus d x p"
  have w: "0 \<le> weight corpus j Tp" by (rule weight_nonneg)
  have eq: "residual corpus d (x(p := x p + r)) j
      = residual corpus d x j + d * weight corpus j Tp * r - (if j = p then r else 0)"
    by (rule residual_update [OF assms])
  have m: "\<bar>d * weight corpus j Tp * r\<bar> = (\<bar>d\<bar> * \<bar>r\<bar>) * weight corpus j Tp"
    using w by (simp add: abs_mult)
  show ?thesis
  proof (cases "j = p")
    case True
    then have "residual corpus d (x(p := x p + r)) j = d * weight corpus j Tp * r"
      using eq by (simp add: r_def)
    with m True show ?thesis by (simp add: r_def)
  next
    case False
    then have "residual corpus d (x(p := x p + r)) j
        = residual corpus d x j + d * weight corpus j Tp * r"
      using eq by simp
    then have "\<bar>residual corpus d (x(p := x p + r)) j\<bar>
        \<le> \<bar>residual corpus d x j\<bar> + \<bar>d * weight corpus j Tp * r\<bar>"
      by (simp add: abs_triangle_ineq)
    with m False show ?thesis by (simp add: r_def)
  qed
qed

lemma potential_step:
  assumes wf: "wf_dict corpus" and p: "(p, Tp) \<in> set corpus"
    and dc: "distinct cands" and sub: "set cands \<subseteq> fst ` set corpus" and mem: "p \<in> set cands"
  shows "potential corpus d (x(p := x p + residual corpus d x p)) cands
       \<le> potential corpus d x cands - (1 - \<bar>d\<bar>) * \<bar>residual corpus d x p\<bar>"
proof -
  define r where "r = \<bar>residual corpus d x p\<bar>"
  define x' where "x' = x(p := x p + residual corpus d x p)"
  have "potential corpus d x' cands
      \<le> (\<Sum>j\<leftarrow>cands. \<bar>residual corpus d x j\<bar> + (\<bar>d\<bar> * r) * weight corpus j Tp
                       - (if j = p then r else 0))"
    unfolding potential_def x'_def r_def
    by (rule sum_list_mono) (rule residual_abs_update [OF wf p])
  also have "\<dots> = potential corpus d x cands
        + (\<bar>d\<bar> * r) * (\<Sum>j\<leftarrow>cands. weight corpus j Tp)
        - (\<Sum>j\<leftarrow>cands. if j = p then r else 0)"
    by (simp add: potential_def sum_list_subtractf sum_list_addf sum_list_const_mult)
  also have "(\<Sum>j\<leftarrow>cands. if j = p then r else 0) = r"
    by (rule sum_list_member_indicator [OF dc mem])
  also have "potential corpus d x cands + (\<bar>d\<bar> * r) * (\<Sum>j\<leftarrow>cands. weight corpus j Tp) - r
      \<le> potential corpus d x cands + (\<bar>d\<bar> * r) * 1 - r"
  proof -
    have "0 \<le> \<bar>d\<bar> * r" by (simp add: r_def)
    from mult_left_mono [OF weight_column_le [OF dc sub wf, of Tp] this]
    show ?thesis by simp
  qed
  finally have "potential corpus d x' cands \<le> potential corpus d x cands + (\<bar>d\<bar> * r) * 1 - r" .
  then have "potential corpus d x' cands \<le> potential corpus d x cands - (1 - \<bar>d\<bar>) * r"
    by (simp add: algebra_simps)
  then show ?thesis unfolding x'_def r_def .
qed

section \<open>The iterative estimator: one pass\<close>

lemma pass_loop_done:
  "\<not> i < length cands \<Longrightarrow> pass_loop corpus d i cands probs = Inr (probs, cands)"
  by (subst pass_loop.simps) simp

lemma pass_loop_unfold:
  assumes "i < length cands" and "new_rank corpus d probs (cands ! i) = Inr new_pr"
    and "dict_get probs (cands ! i) = Inr old_pr"
  shows "pass_loop corpus d i cands probs
       = pass_loop corpus d (i + 1)
           (if \<bar>new_pr - old_pr\<bar> < 1 / 1000 then remove1 (cands ! i) cands else cands)
           (AList.update (cands ! i) new_pr probs)"
  by (subst pass_loop.simps) (simp add: assms Let_def)

lemma pass_inv_keys: "pass_inv corpus cands probs \<Longrightarrow> fst ` set probs = fst ` set corpus"
  by (metis pass_inv_def set_map)

lemma pass_inv_step:
  assumes "pass_inv corpus cands probs" and "page \<in> set cands"
  shows "pass_inv corpus (if c then remove1 page cands else cands) (AList.update page v probs)"
proof -
  from assms have "page \<in> fst ` set probs"
    using pass_inv_keys [OF assms(1)] by (auto simp: pass_inv_def)
  then have "map fst (AList.update page v probs) = map fst probs" by (rule keys_update)
  moreover have "set (remove1 page cands) \<subseteq> set cands" by (rule set_remove1_subset)
  ultimately show ?thesis using assms(1) by (auto simp: pass_inv_def)
qed

lemma pass_loop_result:
  assumes "wf_dict corpus" and "pass_inv corpus cands probs"
  shows "\<exists>probs' cands'. pass_loop corpus d i cands probs = Inr (probs', cands')
     \<and> pass_inv corpus cands' probs' \<and> length cands' \<le> length cands
     \<and> (\<bar>d\<bar> \<le> 1 \<longrightarrow>
          potential corpus d (rank_of probs') cands' \<le> potential corpus d (rank_of probs) cands
          \<and> (i < length cands \<and> length cands' = length cands \<longrightarrow>
               potential corpus d (rank_of probs') cands' + (1 - \<bar>d\<bar>) / 1000
                 \<le> potential corpus d (rank_of probs) cands))"
  using assms
proof (induction corpus d i cands probs rule: pass_loop.induct)
  case (1 corpus d i cands probs)
  note wf = "1.prems"(1) and inv = "1.prems"(2)
  show ?case
  proof (cases "i < length cands")
    case False
    with inv show ?thesis by (simp add: pass_loop_done)
  next
    case True
    define page where "page = cands ! i"
    define x where "x = rank_of probs"
    define r where "r = residual corpus d x page"
    have mem: "page \<in> set cands" using True by (simp add: page_def)
    have keys: "fst ` set probs = fst ` set corpus" by (rule pass_inv_keys [OF inv])
    have dc: "distinct cands" and sub: "set cands \<subseteq> fst ` set corpus"
      using inv by (simp_all add: pass_inv_def)
    from mem sub have pk: "page \<in> fst ` set corpus" by auto
    then obtain Tp where Tp: "(page, Tp) \<in> set corpus" by auto
    have nr: "new_rank corpus d probs (cands ! i) = Inr (x page + r)"
      using keys by (simp add: new_rank_closed r_def residual_def x_def page_def)
    from pk keys have "page \<in> fst ` set probs" by simp
    from dict_get_key [OF this] obtain v where v: "dict_get probs page = Inr v" ..
    have dg: "dict_get probs (cands ! i) = Inr (x page)"
      using v dict_get_rank_of [OF v] by (simp add: x_def page_def)
    define cands1 where
      "cands1 = (if \<bar>x page + r - x page\<bar> < 1 / 1000 then remove1 (cands ! i) cands else cands)"
    define probs1 where "probs1 = AList.update (cands ! i) (x page + r) probs"
    have inv1: "pass_inv corpus cands1 probs1"
      using pass_inv_step [OF inv mem, of "\<bar>x page + r - x page\<bar> < 1 / 1000" "x page + r"]
      unfolding cands1_def probs1_def page_def .
    have unf: "pass_loop corpus d i cands probs = pass_loop corpus d (i + 1) cands1 probs1"
      unfolding cands1_def probs1_def by (rule pass_loop_unfold [OF True nr dg])
    have x1: "rank_of probs1 = x(page := x page + r)"
      by (simp add: probs1_def rank_of_update x_def page_def)
    from "1.IH" [OF True refl nr dg wf] inv1
    obtain probs' cands' where
      res: "pass_loop corpus d (i + 1) cands1 probs1 = Inr (probs', cands')"
      and inv': "pass_inv corpus cands' probs'"
      and len': "length cands' \<le> length cands1"
      and pot': "\<bar>d\<bar> \<le> 1 \<Longrightarrow>
          potential corpus d (rank_of probs') cands' \<le> potential corpus d (rank_of probs1) cands1"
      unfolding cands1_def probs1_def by blast
    have len1: "length cands1 \<le> length cands"
      by (simp add: cands1_def length_remove1)
    have step: "potential corpus d (rank_of probs1) cands
        \<le> potential corpus d x cands - (1 - \<bar>d\<bar>) * \<bar>r\<bar>"
      unfolding x1 r_def by (rule potential_step [OF wf Tp dc sub mem])
    have rem: "potential corpus d (rank_of probs1) cands1 \<le> potential corpus d (rank_of probs1) cands"
      by (simp add: cands1_def potential_remove1)
    have pot: "potential corpus d (rank_of probs') cands' \<le> potential corpus d x cands"
      if d: "\<bar>d\<bar> \<le> 1"
    proof -
      have "0 \<le> (1 - \<bar>d\<bar>) * \<bar>r\<bar>" using d by simp
      with pot' [OF d] rem step show ?thesis by linarith
    qed
    have strict: "potential corpus d (rank_of probs') cands' + (1 - \<bar>d\<bar>) / 1000
        \<le> potential corpus d x cands"
      if d: "\<bar>d\<bar> \<le> 1" and eq: "length cands' = length cands"
    proof -
      have "\<not> \<bar>r\<bar> < 1 / 1000"
      proof
        assume "\<bar>r\<bar> < 1 / 1000"
        then have "cands1 = remove1 page cands" by (simp add: cands1_def page_def)
        then have "length cands1 < length cands" using mem True by (simp add: length_remove1)
        with len' eq show False by simp
      qed
      then have "1 / 1000 \<le> \<bar>r\<bar>" by simp
      moreover have "0 \<le> 1 - \<bar>d\<bar>" using d by simp
      ultimately have "(1 - \<bar>d\<bar>) * (1 / 1000) \<le> (1 - \<bar>d\<bar>) * \<bar>r\<bar>"
        by (rule mult_left_mono)
      then have "(1 - \<bar>d\<bar>) / 1000 \<le> (1 - \<bar>d\<bar>) * \<bar>r\<bar>" by simp
      with pot' [OF d] rem step show ?thesis by linarith
    qed
    from res inv' len' len1 pot strict show ?thesis
      unfolding unf x_def by (intro exI conjI impI) auto
  qed
qed

lemma update_set: "(a, b) \<in> set (AList.update k v al) \<Longrightarrow> (a, b) = (k, v) \<or> (a, b) \<in> set al"
  by (induction al) (auto split: if_splits)

lemma rank_of_positive:
  assumes "\<forall>(k, v)\<in>set probs. 0 < v" and "k \<in> fst ` set probs"
  shows "0 < rank_of probs k"
proof -
  from dict_get_key [OF assms(2)] obtain v where v: "dict_get probs k = Inr v" ..
  from dict_get_mem [OF v] assms(1) have "0 < v" by auto
  with dict_get_rank_of [OF v] show ?thesis by simp
qed

lemma flow_nonneg:
  assumes "\<forall>k\<in>fst ` set corpus. 0 \<le> x k"
  shows "0 \<le> flow corpus x page"
  unfolding flow_def
proof (rule sum_list_nonneg)
  fix t assume "t \<in> set (map (\<lambda>(extra, links). weight corpus page links * x extra) corpus)"
  then obtain extra links where "(extra, links) \<in> set corpus"
    and t: "t = weight corpus page links * x extra" by auto
  then have "0 \<le> x extra" using assms by force
  with t show "0 \<le> t" by (simp add: weight_nonneg)
qed

lemma pass_loop_positive:
  assumes "wf_dict corpus" and "pass_inv corpus cands probs" and "0 \<le> d" and "d < 1"
    and "\<forall>(k, v)\<in>set probs. 0 < v"
    and "pass_loop corpus d i cands probs = Inr (probs', cands')"
  shows "\<forall>(k, v)\<in>set probs'. 0 < v"
  using assms
proof (induction corpus d i cands probs rule: pass_loop.induct)
  case (1 corpus d i cands probs)
  note wf = "1.prems"(1) and inv = "1.prems"(2) and d = "1.prems"(3,4)
    and pos = "1.prems"(5) and res = "1.prems"(6)
  show ?case
  proof (cases "i < length cands")
    case False
    with res pos show ?thesis by (simp add: pass_loop_done)
  next
    case True
    define page where "page = cands ! i"
    have mem: "page \<in> set cands" using True by (simp add: page_def)
    have keys: "fst ` set probs = fst ` set corpus" by (rule pass_inv_keys [OF inv])
    have sub: "set cands \<subseteq> fst ` set corpus" using inv by (simp add: pass_inv_def)
    from mem sub have pk: "page \<in> fst ` set corpus" by auto
    then have ne: "corpus \<noteq> []" by auto
    define new_pr where
      "new_pr = (1 - d) / real (length corpus) + d * flow corpus (rank_of probs) page"
    have nr: "new_rank corpus d probs (cands ! i) = Inr new_pr"
      using keys by (simp add: new_rank_closed new_pr_def page_def)
    from pk keys have "page \<in> fst ` set probs" by simp
    from dict_get_key [OF this] obtain old_pr where "dict_get probs page = Inr old_pr" ..
    then have dg: "dict_get probs (cands ! i) = Inr old_pr" by (simp add: page_def)
    have "\<forall>k\<in>fst ` set corpus. 0 \<le> rank_of probs k"
      using rank_of_positive [OF pos] keys by (auto simp: less_imp_le)
    then have "0 \<le> flow corpus (rank_of probs) page" by (rule flow_nonneg)
    then have "0 \<le> d * flow corpus (rank_of probs) page" using d(1) by simp
    moreover have "0 < (1 - d) / real (length corpus)" using d(2) ne by simp
    ultimately have newpos: "0 < new_pr" by (simp add: new_pr_def add_pos_nonneg)
    have pos1: "\<forall>(k, v)\<in>set (AList.update (cands ! i) new_pr probs). 0 < v"
      using pos newpos by (auto dest!: update_set)
    have inv1: "pass_inv corpus
        (if \<bar>new_pr - old_pr\<bar> < 1 / 1000 then remove1 (cands ! i) cands else cands)
        (AList.update (cands ! i) new_pr probs)"
      using pass_inv_step [OF inv mem] unfolding page_def .
    from res have res1: "pass_loop corpus d (i + 1)
        (if \<bar>new_pr - old_pr\<bar> < 1 / 1000 then remove1 (cands ! i) cands else cands)
        (AList.update (cands ! i) new_pr probs) = Inr (probs', cands')"
      by (simp only: pass_loop_unfold [OF True nr dg])
    show ?thesis
      by (rule "1.IH" [OF True refl nr dg wf inv1 d pos1 res1])
  qed
qed

section \<open>The iterative estimator: termination and result\<close>

lemma iterate_loop_Nil: "iterate_loop corpus d [] probs = Some (Inr probs)"
  by (subst iterate_loop.simps) simp

lemma iterate_loop_pass:
  "cands \<noteq> [] \<Longrightarrow> pass_loop corpus d 0 cands probs = Inr (probs', cands') \<Longrightarrow>
   iterate_loop corpus d cands probs = iterate_loop corpus d cands' probs'"
  by (subst iterate_loop.simps) simp

lemma iterate_loop_keys:
  assumes "iterate_loop corpus d cands probs = Some y"
    and "wf_dict corpus" and "pass_inv corpus cands probs"
  shows "\<forall>r. y = Inr r \<longrightarrow> map fst r = map fst corpus"
  using assms
proof (induction rule: iterate_loop.raw_induct [rotated 1, consumes 1])
  case (1 loop corpus d cands probs y)
  show ?case
  proof (cases "cands = []")
    case True
    with "1.hyps" "1.prems" show ?thesis by (auto simp: pass_inv_def)
  next
    case False
    from pass_loop_result [OF "1.prems", of d 0]
    obtain probs' cands' where res: "pass_loop corpus d 0 cands probs = Inr (probs', cands')"
      and inv': "pass_inv corpus cands' probs'" by blast
    from "1.hyps" False res have "loop corpus d cands' probs' = Some y" by simp
    from "1.IH" [OF this "1.prems"(1) inv'] show ?thesis .
  qed
qed

lemma iterate_loop_terminates_bounded:
  fixes d c :: real
  assumes wf: "wf_dict corpus" and d: "\<bar>d\<bar> < 1" and c_def: "c = 1000 / (1 - \<bar>d\<bar>)"
  shows "pass_inv corpus cands probs \<Longrightarrow>
     real (length cands) + potential corpus d (rank_of probs) cands * c \<le> real n \<Longrightarrow>
     \<exists>r. iterate_loop corpus d cands probs = Some (Inr r) \<and> map fst r = map fst corpus
        \<and> (0 \<le> d \<longrightarrow> (\<forall>(k, v)\<in>set probs. 0 < v) \<longrightarrow> (\<forall>(k, v)\<in>set r. 0 < v))"
proof (induction n arbitrary: cands probs)
  case 0
  have c: "0 < c" using d by (simp add: c_def)
  have "0 \<le> potential corpus d (rank_of probs) cands * c"
    using potential_nonneg [of corpus d "rank_of probs" cands] c by simp
  with "0.prems"(2) have "real (length cands) \<le> 0" by linarith
  then have "cands = []" by simp
  with "0.prems"(1) show ?case by (simp add: iterate_loop_Nil pass_inv_def)
next
  case (Suc n)
  have c: "0 < c" using d by (simp add: c_def)
  have c1: "(1 - \<bar>d\<bar>) / 1000 * c = 1" using d by (simp add: c_def)
  show ?case
  proof (cases "cands = []")
    case True
    with Suc.prems(1) show ?thesis by (simp add: iterate_loop_Nil pass_inv_def)
  next
    case False
    from d have dle: "\<bar>d\<bar> \<le> 1" by simp
    from pass_loop_result [OF wf Suc.prems(1), of d 0] dle False
    obtain probs' cands' where res: "pass_loop corpus d 0 cands probs = Inr (probs', cands')"
      and inv': "pass_inv corpus cands' probs'"
      and len: "length cands' \<le> length cands"
      and pot: "potential corpus d (rank_of probs') cands' \<le> potential corpus d (rank_of probs) cands"
      and strict: "length cands' = length cands \<Longrightarrow>
          potential corpus d (rank_of probs') cands' + (1 - \<bar>d\<bar>) / 1000
            \<le> potential corpus d (rank_of probs) cands"
      by auto
    have dec: "real (length cands') + potential corpus d (rank_of probs') cands' * c + 1
        \<le> real (length cands) + potential corpus d (rank_of probs) cands * c"
    proof (cases "length cands' = length cands")
      case True
      from mult_right_mono [OF strict [OF True] less_imp_le [OF c]]
      have "potential corpus d (rank_of probs') cands' * c + (1 - \<bar>d\<bar>) / 1000 * c
          \<le> potential corpus d (rank_of probs) cands * c"
        by (simp add: algebra_simps)
      with c1 True show ?thesis by simp
    next
      case False
      with len have "real (length cands') + 1 \<le> real (length cands)" by simp
      moreover from mult_right_mono [OF pot less_imp_le [OF c]]
      have "potential corpus d (rank_of probs') cands' * c
          \<le> potential corpus d (rank_of probs) cands * c" .
      ultimately show ?thesis by simp
    qed
    with Suc.prems(2) have
      "real (length cands') + potential corpus d (rank_of probs') cands' * c \<le> real n"
      by simp
    from Suc.IH [OF inv' this] obtain r where
      r: "iterate_loop corpus d cands' probs' = Some (Inr r)" "map fst r = map fst corpus"
      and rpos: "0 \<le> d \<Longrightarrow> (\<forall>(k, v)\<in>set probs'. 0 < v) \<Longrightarrow> (\<forall>(k, v)\<in>set r. 0 < v)"
      by blast
    have "\<forall>(k, v)\<in>set r. 0 < v" if d0: "0 \<le> d" and pos: "\<forall>(k, v)\<in>set probs. 0 < v"
    proof -
      from d have "d < 1" by simp
      from pass_loop_positive [OF wf Suc.prems(1) d0 this pos res]
      show ?thesis by (rule rpos [OF d0])
    qed
    with r iterate_loop_pass [OF False res] show ?thesis by auto
  qed
qed

lemma iterate_loop_terminates:
  assumes "wf_dict corpus" and "\<bar>d\<bar> < 1" and "pass_inv corpus cands probs"
  shows "\<exists>r. iterate_loop corpus d cands probs = Some (Inr r) \<and> map fst r = map fst corpus
        \<and> (0 \<le> d \<longrightarrow> (\<forall>(k, v)\<in>set probs. 0 < v) \<longrightarrow> (\<forall>(k, v)\<in>set r. 0 < v))"
proof -
  obtain n where "real (length cands)
      + potential corpus d (rank_of probs) cands * (1000 / (1 - \<bar>d\<bar>)) \<le> real n"
    using real_arch_simple by blast
  from iterate_loop_terminates_bounded [OF assms(1,2) refl assms(3) this] show ?thesis .
qed

lemma init_inv:
  "wf_dict corpus \<Longrightarrow> pass_inv corpus (map fst corpus) (assign_each (\<lambda>page. c) corpus [])"
  by (simp add: assign_each_closed pass_inv_def wf_dict_def comp_def case_prod_unfold)

lemma init_positive:
  "wf_dict corpus \<Longrightarrow> 0 < c \<Longrightarrow> \<forall>(k, v)\<in>set (assign_each (\<lambda>page. c) corpus []). 0 < v"
  by (auto simp: assign_each_closed)

lemma iterate_pagerank_unfold:
  "corpus \<noteq> [] \<Longrightarrow>
   iterate_pagerank corpus d =
     (case iterate_loop corpus d (map fst corpus)
             (assign_each (\<lambda>page. 1 / real (length corpus)) corpus []) of
        None \<Rightarrow> None
      | Some (Inl e) \<Rightarrow> Some (Inl e)
      | Some (Inr probabilities) \<Rightarrow> Some (normalize probabilities))"
  by (simp add: iterate_pagerank_def true_div_def)

lemma iterate_pagerank_empty: "iterate_pagerank [] d = Some (Inl ZeroDivisionError)"
  by (simp add: iterate_pagerank_def true_div_def)

lemma iterate_pagerank_returns:
  assumes "wf_dict corpus" and "corpus \<noteq> []" and "\<bar>d\<bar> < 1"
  shows "\<exists>probs. iterate_loop corpus d (map fst corpus)
             (assign_each (\<lambda>page. 1 / real (length corpus)) corpus []) = Some (Inr probs)
           \<and> map fst probs = map fst corpus
           \<and> iterate_pagerank corpus d = Some (normalize probs)
           \<and> (0 \<le> d \<longrightarrow> (\<forall>(k, v)\<in>set probs. 0 < v))"
proof -
  have pos: "\<forall>(k, v)\<in>set (assign_each (\<lambda>page. 1 / real (length corpus)) corpus []). 0 < v"
    using assms(2) by (intro init_positive [OF assms(1)]) simp
  from iterate_loop_terminates [OF assms(1,3) init_inv [OF assms(1)]] pos
  obtain probs where loop: "iterate_loop corpus d (map fst corpus)
             (assign_each (\<lambda>page. 1 / real (length corpus)) corpus []) = Some (Inr probs)"
    and keys: "map fst probs = map fst corpus"
    and ppos: "0 \<le> d \<longrightarrow> (\<forall>(k, v)\<in>set probs. 0 < v)"
    by blast
  have "iterate_pagerank corpus d = Some (normalize probs)"
    by (simp add: iterate_pagerank_unfold [OF assms(2)] loop)
  with loop keys ppos show ?thesis by blast
qed

lemma iterate_pagerank_result:
  assumes "iterate_pagerank corpus d = Some (Inr r)" and "wf_dict corpus"
  shows "map fst r = map fst corpus \<and> sum_list (map snd r) = 1"
proof -
  have ne: "corpus \<noteq> []" using assms(1) by (auto simp: iterate_pagerank_empty)
  from assms(1) obtain probs where loop: "iterate_loop corpus d (map fst corpus)
             (assign_each (\<lambda>page. 1 / real (length corpus)) corpus []) = Some (Inr probs)"
    and norm: "normalize probs = Inr r"
    by (auto simp: iterate_pagerank_unfold [OF ne] split: option.splits sum.splits)
  from iterate_loop_keys [OF loop assms(2) init_inv [OF assms(2)]]
  have keys: "map fst probs = map fst corpus" by simp
  have wfp: "wf_dict probs" by (rule wf_dict_keys [OF keys assms(2)])
  have pne: "probs \<noteq> []" using keys ne by auto
  from normalize_sum [OF wfp pne norm] keys show ?thesis by simp
qed

lemma positive_sum:
  "probs \<noteq> [] \<Longrightarrow> \<forall>(k, v)\<in>set probs. 0 < (v::real) \<Longrightarrow> 0 < sum_list (map snd probs)"
proof (induction probs)
  case Nil
  then show ?case by simp
next
  case (Cons a probs)
  from Cons.prems(2) have a: "0 < snd a" by (cases a) simp
  show ?case
  proof (cases "probs = []")
    case True
    with a show ?thesis by simp
  next
    case False
    from Cons.prems(2) have "\<forall>(k, v)\<in>set probs. 0 < v" by simp
    from Cons.IH [OF False this] a show ?thesis by simp
  qed
qed

lemma iterate_pagerank_sum:
  assumes "wf_dict corpus" and "corpus \<noteq> []" and "0 \<le> d" and "d < 1"
  shows "\<exists>r. iterate_pagerank corpus d = Some (Inr r) \<and> map fst r = map fst corpus
           \<and> sum_list (map snd r) = 1"
proof -
  from assms(3,4) have "\<bar>d\<bar> < 1" by simp
  from iterate_pagerank_returns [OF assms(1,2) this] assms(3)
  obtain probs where keys: "map fst probs = map fst corpus"
    and it: "iterate_pagerank corpus d = Some (normalize probs)"
    and pos: "\<forall>(k, v)\<in>set probs. 0 < v"
    by blast
  have wfp: "wf_dict probs" by (rule wf_dict_keys [OF keys assms(1)])
  have pne: "probs \<noteq> []" using keys assms(2) by auto
  from positive_sum [OF pne pos] have "sum_list (map snd probs) \<noteq> 0" by simp
  from normalize_closed [OF wfp this] obtain r where r: "normalize probs = Inr r" by blast
  from normalize_sum [OF wfp pne r] it r keys show ?thesis by simp
qed

section \<open>Keys and sums of the results\<close>

lemma flow_split_items:
  "(\<Sum>(extra, links)\<leftarrow>items. weight corpus page links * x extra)
     = (\<Sum>(q, ls)\<leftarrow>items. if page |\<in>| ls then x q / real (fcard ls) else 0)
       + (\<Sum>(q, ls)\<leftarrow>items. if ls = {||} then x q / real (length corpus) else 0)"
proof (induction items)
  case Nil
  then show ?case by simp
next
  case (Cons it items)
  obtain q ls where it: "it = (q, ls)" by (cases it)
  show ?case
  proof (cases "ls = {||}")
    case True
    with Cons.IH show ?thesis by (simp add: it weight_def)
  next
    case False
    with Cons.IH show ?thesis by (simp add: it weight_def)
  qed
qed

lemma new_rank_formula:
  "fst ` set corpus \<subseteq> fst ` set probs \<Longrightarrow>
   new_rank corpus d probs page = Inr (spec_new_rank corpus d (rank_of probs) page)"
  by (simp add: new_rank_closed spec_new_rank_def flow_def flow_split_items distrib_left)

lemma add_each_keys: "add_each new probs = Inr probs' \<Longrightarrow> map fst probs' = map fst probs"
proof (induction new arbitrary: probs)
  case Nil
  then show ?case by simp
next
  case (Cons it new)
  obtain page p where it: "it = (page, p)" by (cases it)
  from Cons.prems obtain v where v: "dict_get probs page = Inr v"
    and rest: "add_each new (AList.update page (v + p) probs) = Inr probs'"
    by (auto simp: it split: sum.splits)
  from dict_get_mem [OF v] have "page \<in> fst ` set probs" by force
  from Cons.IH [OF rest] keys_update [OF this] show ?case by simp
qed

lemma divide_each_keys: "divide_each ks c probs = Inr probs' \<Longrightarrow> map fst probs' = map fst probs"
proof (induction ks arbitrary: probs)
  case Nil
  then show ?case by simp
next
  case (Cons page ks)
  from Cons.prems obtain v q where v: "dict_get probs page = Inr v"
    and rest: "divide_each ks c (AList.update page q probs) = Inr probs'"
    by (auto split: sum.splits)
  from dict_get_mem [OF v] have "page \<in> fst ` set probs" by force
  from Cons.IH [OF rest] keys_update [OF this] show ?case by simp
qed

lemma normalize_keys: "normalize probs = Inr r \<Longrightarrow> map fst r = map fst probs"
  unfolding normalize_def Let_def by (rule divide_each_keys)

lemma sample_loop_keys:
  "sample_loop corpus d n draws i probs = Inr r \<Longrightarrow> map fst r = map fst probs"
proof (induction corpus d n draws i probs rule: sample_loop.induct)
  case (1 corpus d n draws i probs)
  show ?case
  proof (cases "int i < n")
    case False
    with "1.prems" show ?thesis by (simp add: sample_loop.simps)
  next
    case True
    from "1.prems" True obtain sample_page new probs1 where
      pick: "(if i = 0 then random_choice (draws i) (map fst probs)
              else random_choices (draws i) (map fst probs) (map snd probs)) = Inr sample_page"
      and tm: "transition_model corpus sample_page d = Inr new"
      and add: "add_each new probs = Inr probs1"
      and rest: "sample_loop corpus d n draws (i + 1) probs1 = Inr r"
      by (subst (asm) sample_loop.simps) (auto split: sum.splits)
    from "1.IH" [OF True pick tm add rest] add_each_keys [OF add] show ?thesis by simp
  qed
qed

lemma sample_pagerank_keys:
  assumes "wf_dict corpus" and "sample_pagerank corpus d n draws = Inr r"
  shows "map fst r = map fst corpus"
proof -
  from assms(2) obtain probs avg where
    loop: "sample_loop corpus d n draws 0 (assign_each (\<lambda>page. 0) corpus []) = Inr probs"
    and div: "divide_each (map fst probs) (real_of_int n) probs = Inr avg"
    and norm: "normalize avg = Inr r"
    by (auto simp: sample_pagerank_def split: sum.splits)
  have "map fst (assign_each (\<lambda>page. 0) corpus []) = map fst corpus"
    by (simp add: assign_each_closed [OF assms(1)] comp_def case_prod_unfold)
  with sample_loop_keys [OF loop] divide_each_keys [OF div] normalize_keys [OF norm]
  show ?thesis by simp
qed

lemma transition_model_keys:
  assumes "wf_dict corpus" and "transition_model corpus page d = Inr pr"
  shows "map fst pr = map fst corpus"
proof -
  from assms(2) obtain links where links: "dict_get corpus page = Inr links"
    by (auto simp: transition_model_def split: sum.splits)
  from transition_model_closed [OF assms(1) links, of d] assms(2) show ?thesis
    by (auto simp: comp_def case_prod_unfold)
qed

lemma sample_pagerank_sum:
  assumes "valid_corpus corpus" and "corpus \<noteq> []" and "0 < n"
  shows "\<exists>r. sample_pagerank corpus d n draws = Inr r \<and> map fst r = map fst corpus
           \<and> sum_list (map snd r) = 1"
proof -
  have wf: "wf_dict corpus" using assms(1) by (simp add: valid_corpus_def)
  define acc where "acc = snd (spec_walk corpus d draws (nat n))"
  define avg where "avg = map (\<lambda>(p, a). (p, a / real (nat n))) acc"
  define r where "r = spec_sample_rank corpus d (nat n) draws"
  have sp: "sample_pagerank corpus d n draws = Inr r"
    unfolding r_def by (rule sample_pagerank_valid [OF assms])
  from spec_walk_invariant [OF assms(1,2), of d draws "nat n"]
  have total: "sum_list (map snd acc) = real (nat n)" by (simp add: acc_def)
  have n: "real (nat n) \<noteq> 0" using assms(3) by simp
  have "sum_list (map snd avg) = real (nat n) / real (nat n)"
    unfolding avg_def by (simp only: sum_list_divide total)
  then have one: "sum_list (map snd avg) = 1" using n by simp
  have "r = map (\<lambda>(p, a). (p, a / sum_list (map snd avg))) avg"
    by (simp add: r_def spec_sample_rank_def Let_def acc_def avg_def)
  then have "sum_list (map snd r) = sum_list (map snd avg) / sum_list (map snd avg)"
    by (simp only: sum_list_divide)
  with one have "sum_list (map snd r) = 1" by simp
  with sp sample_pagerank_keys [OF wf sp] show ?thesis by blast
qed

section \<open>The iterative estimator on a store: refinement\<close>

lemma same_except_refl: "same_except h h A"
  by (simp add: same_except_def)

lemma same_except_trans: "same_except h h1 A \<Longrightarrow> same_except h1 h2 A \<Longrightarrow> same_except h h2 A"
  by (simp add: same_except_def)

lemma same_except_update: "a \<in> A \<Longrightarrow> same_except h (h[a := x]) A"
  by (auto simp: same_except_def intro!: nth_list_update_neq)

lemma get_corpus_bound: "get_corpus h a = Inr x \<Longrightarrow> a < length h \<and> h ! a = CorpusObj x"
  by (auto simp: get_corpus_def split: if_splits obj.splits)

lemma get_ranks_bound: "get_ranks h a = Inr x \<Longrightarrow> a < length h \<and> h ! a = RanksObj x"
  by (auto simp: get_ranks_def split: if_splits obj.splits)

lemma get_list_bound: "get_list h a = Inr x \<Longrightarrow> a < length h \<and> h ! a = ListObj x"
  by (auto simp: get_list_def split: if_splits obj.splits)

lemma get_corpus_other: "a \<noteq> b \<Longrightarrow> get_corpus (h[b := x]) a = get_corpus h a"
  by (simp add: get_corpus_def)

lemma get_ranks_other: "a \<noteq> b \<Longrightarrow> get_ranks (h[b := x]) a = get_ranks h a"
  by (simp add: get_ranks_def)

lemma get_list_other: "a \<noteq> b \<Longrightarrow> get_list (h[b := x]) a = get_list h a"
  by (simp add: get_list_def)

lemma get_ranks_same: "a < length h \<Longrightarrow> get_ranks (h[a := RanksObj x]) a = Inr x"
  by (simp add: get_ranks_def)

lemma get_list_same: "a < length h \<Longrightarrow> get_list (h[a := ListObj x]) a = Inr x"
  by (simp add: get_list_def)

lemma pass_loop_st_done:
  "get_list h q = Inr cands \<Longrightarrow> \<not> i < length cands \<Longrightarrow> pass_loop_st c d i q p h = (Inr (), h)"
  by (subst pass_loop_st.simps) simp

lemma pass_loop_st_sim:
  assumes "st_inv c p q h corpus probs cands"
  shows "case pass_loop corpus d i cands probs of
           Inl e \<Rightarrow> \<exists>h'. pass_loop_st c d i q p h = (Inl e, h') \<and> same_except h h' {p, q}
         | Inr (probs', cands') \<Rightarrow>
             \<exists>h'. pass_loop_st c d i q p h = (Inr (), h') \<and> same_except h h' {p, q}
                  \<and> st_inv c p q h' corpus probs' cands'"
  using assms
proof (induction corpus d i cands probs arbitrary: h rule: pass_loop.induct)
  case (1 corpus d i cands probs)
  note inv = "1.prems"
  from inv have ne: "c \<noteq> p" "c \<noteq> q" "p \<noteq> q" and gc: "get_corpus h c = Inr corpus"
    and gr: "get_ranks h p = Inr probs" and gl: "get_list h q = Inr cands"
    by (simp_all add: st_inv_def)
  show ?case
  proof (cases "i < length cands")
    case False
    then show ?thesis
      using inv by (simp add: pass_loop_done pass_loop_st_done [OF gl] same_except_refl)
  next
    case True
    show ?thesis
    proof (cases "new_rank corpus d probs (cands ! i)")
      case (Inl e)
      have "pass_loop corpus d i cands probs = Inl e"
        by (subst pass_loop.simps) (simp add: True Inl Let_def)
      moreover have "pass_loop_st c d i q p h = (Inl e, h)"
        by (subst pass_loop_st.simps) (simp add: gl gc gr True Inl Let_def)
      ultimately show ?thesis by (simp add: same_except_refl)
    next
      case nr: (Inr new_pr)
      show ?thesis
      proof (cases "dict_get probs (cands ! i)")
        case (Inl e)
        have "pass_loop corpus d i cands probs = Inl e"
          by (subst pass_loop.simps) (simp add: True nr Inl Let_def)
        moreover have "pass_loop_st c d i q p h = (Inl e, h)"
          by (subst pass_loop_st.simps) (simp add: gl gc gr True nr Inl Let_def)
        ultimately show ?thesis by (simp add: same_except_refl)
      next
        case dg: (Inr old_pr)
        define cands1 where "cands1 = (if \<bar>new_pr - old_pr\<bar> < 1 / 1000
                                         then remove1 (cands ! i) cands else cands)"
        define probs1 where "probs1 = AList.update (cands ! i) new_pr probs"
        define h1 where "h1 = (if \<bar>new_pr - old_pr\<bar> < 1 / 1000
                                 then h[q := ListObj (remove1 (cands ! i) cands)] else h)"
        define h2 where "h2 = h1[p := RanksObj probs1]"
        from get_list_bound [OF gl] have qb: "q < length h" by simp
        from get_ranks_bound [OF gr] have pb: "p < length h" by simp
        have len1: "length h1 = length h" by (simp add: h1_def)
        have gr1: "get_ranks h1 p = Inr probs"
          using gr ne by (simp add: h1_def get_ranks_other)
        have gl1: "get_list h1 q = Inr cands1"
          using gl qb by (simp add: h1_def cands1_def get_list_same)
        have gc1: "get_corpus h1 c = Inr corpus"
          using gc ne by (simp add: h1_def get_corpus_other)
        have inv2: "st_inv c p q h2 corpus probs1 cands1"
          using ne gc1 gl1 pb len1
          by (simp add: st_inv_def h2_def get_corpus_other get_list_other get_ranks_same)
        have se: "same_except h h2 {p, q}"
          unfolding h2_def h1_def
          by (auto intro!: same_except_trans [OF _ same_except_update] same_except_update
              same_except_refl)
        have unf: "pass_loop corpus d i cands probs = pass_loop corpus d (i + 1) cands1 probs1"
          unfolding cands1_def probs1_def by (rule pass_loop_unfold [OF True nr dg])
        have unf_st: "pass_loop_st c d i q p h = pass_loop_st c d (i + 1) q p h2"
        proof (cases "\<bar>new_pr - old_pr\<bar> < 1 / 1000")
          case c: True
          have "get_ranks (h[q := ListObj (remove1 (cands ! i) cands)]) p = Inr probs"
            using gr ne by (simp add: get_ranks_other)
          then show ?thesis
            using c by (subst pass_loop_st.simps)
              (simp add: gl gc gr True nr dg Let_def h2_def h1_def probs1_def)
        next
          case c: False
          then show ?thesis
            by (subst pass_loop_st.simps)
              (simp add: gl gc gr True nr dg Let_def h2_def h1_def probs1_def)
        qed
        from "1.IH" [OF True refl nr dg, of h2] inv2
        have IH: "case pass_loop corpus d (i + 1) cands1 probs1 of
           Inl e \<Rightarrow> \<exists>h'. pass_loop_st c d (i + 1) q p h2 = (Inl e, h') \<and> same_except h2 h' {p, q}
         | Inr (probs', cands') \<Rightarrow>
             \<exists>h'. pass_loop_st c d (i + 1) q p h2 = (Inr (), h') \<and> same_except h2 h' {p, q}
                  \<and> st_inv c p q h' corpus probs' cands'"
          by (simp add: cands1_def probs1_def)
        show ?thesis
          unfolding unf unf_st using IH same_except_trans [OF se]
          by (auto split: sum.splits)
      qed
    qed
  qed
qed

lemma iterate_loop_st_Nil:
  "get_list h q = Inr [] \<Longrightarrow> iterate_loop_st c d q p h = Some (Inr (), h)"
  by (subst iterate_loop_st.simps) simp

lemma iterate_loop_st_error:
  "get_list h q = Inr cands \<Longrightarrow> cands \<noteq> [] \<Longrightarrow> pass_loop_st c d 0 q p h = (Inl e, h') \<Longrightarrow>
   iterate_loop_st c d q p h = Some (Inl e, h')"
  by (subst iterate_loop_st.simps) simp

lemma iterate_loop_st_pass:
  "get_list h q = Inr cands \<Longrightarrow> cands \<noteq> [] \<Longrightarrow> pass_loop_st c d 0 q p h = (Inr (), h') \<Longrightarrow>
   iterate_loop_st c d q p h = iterate_loop_st c d q p h'"
  by (subst iterate_loop_st.simps) simp

lemma iterate_loop_error:
  "cands \<noteq> [] \<Longrightarrow> pass_loop corpus d 0 cands probs = Inl e \<Longrightarrow>
   iterate_loop corpus d cands probs = Some (Inl e)"
  by (subst iterate_loop.simps) simp

lemma iterate_loop_st_sim:
  assumes "iterate_loop corpus d cands probs = Some y"
    and "st_inv c p q h corpus probs cands"
  shows "case y of
           Inl e \<Rightarrow> \<exists>h'. iterate_loop_st c d q p h = Some (Inl e, h') \<and> same_except h h' {p, q}
         | Inr probs' \<Rightarrow>
             \<exists>h'. iterate_loop_st c d q p h = Some (Inr (), h') \<and> same_except h h' {p, q}
                  \<and> get_ranks h' p = Inr probs'"
  using assms
proof (induction arbitrary: h rule: iterate_loop.raw_induct [rotated 1, consumes 1])
  case (1 loop corpus d cands probs y)
  note inv = "1.prems"
  from inv have gl: "get_list h q = Inr cands" and gr: "get_ranks h p = Inr probs"
    by (simp_all add: st_inv_def)
  show ?case
  proof (cases "cands = []")
    case True
    with "1.hyps" have "y = Inr probs" by simp
    then show ?thesis
      using iterate_loop_st_Nil [OF gl [unfolded True]] gr by (simp add: same_except_refl)
  next
    case False
    note sim = pass_loop_st_sim [OF inv, of d 0]
    show ?thesis
    proof (cases "pass_loop corpus d 0 cands probs")
      case (Inl e)
      with sim obtain h' where st: "pass_loop_st c d 0 q p h = (Inl e, h')"
        and se: "same_except h h' {p, q}" by auto
      from "1.hyps" False Inl have "y = Inl e" by simp
      then show ?thesis
        using iterate_loop_st_error [OF gl False st] se by simp
    next
      case (Inr res)
      obtain probs' cands' where res: "res = (probs', cands')" by (cases res)
      from sim Inr res obtain h' where st: "pass_loop_st c d 0 q p h = (Inr (), h')"
        and se: "same_except h h' {p, q}" and inv': "st_inv c p q h' corpus probs' cands'"
        by auto
      from "1.hyps" False Inr res have "loop corpus d cands' probs' = Some y" by simp
      from "1.IH" [OF this inv']
      have IH: "case y of
           Inl e \<Rightarrow> \<exists>h''. iterate_loop_st c d q p h' = Some (Inl e, h'') \<and> same_except h' h'' {p, q}
         | Inr probs'' \<Rightarrow>
             \<exists>h''. iterate_loop_st c d q p h' = Some (Inr (), h'') \<and> same_except h' h'' {p, q}
                  \<and> get_ranks h'' p = Inr probs''" .
      show ?thesis
        unfolding iterate_loop_st_pass [OF gl False st]
        using IH same_except_trans [OF se] by (auto split: sum.splits)
    qed
  qed
qed

lemma iterate_loop_st_returns:
  assumes "iterate_loop_st c d q p h = Some x"
    and "st_inv c p q h corpus probs cands"
  shows "iterate_loop corpus d cands probs \<noteq> None"
  using assms
proof (induction arbitrary: probs cands rule: iterate_loop_st.raw_induct [rotated 1, consumes 1])
  case (1 loop_st c d q p h x)
  note inv = "1.prems"
  from inv have gl: "get_list h q = Inr cands" by (simp add: st_inv_def)
  show ?case
  proof (cases "cands = []")
    case True
    then show ?thesis by (simp add: iterate_loop_Nil)
  next
    case False
    note sim = pass_loop_st_sim [OF inv, of d 0]
    show ?thesis
    proof (cases "pass_loop corpus d 0 cands probs")
      case (Inl e)
      then show ?thesis by (simp add: iterate_loop_error [OF False])
    next
      case (Inr res)
      obtain probs' cands' where res: "res = (probs', cands')" by (cases res)
      from sim Inr res obtain h' where st: "pass_loop_st c d 0 q p h = (Inr (), h')"
        and inv': "st_inv c p q h' corpus probs' cands'"
        by auto
      from "1.hyps" gl False st have "loop_st c d q p h' = Some x" by simp
      from "1.IH" [OF this inv'] show ?thesis
        by (simp add: iterate_loop_pass [OF False Inr [unfolded res]])
    qed
  qed
qed

lemma get_corpus_append: "a < length h \<Longrightarrow> get_corpus (h @ xs) a = get_corpus h a"
  by (simp add: get_corpus_def nth_append)

lemma get_corpus_take:
  "get_corpus h a = Inr corpus \<Longrightarrow> take (length h) h' = h \<Longrightarrow> get_corpus h' a = Inr corpus"
proof -
  assume gc: "get_corpus h a = Inr corpus" and t: "take (length h) h' = h"
  from get_corpus_bound [OF gc] have a: "a < length h" and v: "h ! a = CorpusObj corpus"
    by simp_all
  from t have "length (take (length h) h') = length h" by simp
  then have "length h \<le> length h'" by simp
  moreover from t a have "h' ! a = h ! a" by (metis nth_take)
  ultimately show ?thesis using a v by (simp add: get_corpus_def)
qed

lemma same_except_take:
  assumes "same_except (h @ xs) h' A" and "\<forall>a\<in>A. length h \<le> a"
  shows "take (length h) h' = h"
proof (rule nth_equalityI)
  from assms(1) show "length (take (length h) h') = length h"
    by (simp add: same_except_def)
next
  fix i assume "i < length (take (length h) h')"
  then have i: "i < length h" by simp
  with assms(2) have "i \<notin> A" by auto
  with assms(1) have "h' ! i = (h @ xs) ! i" by (simp add: same_except_def)
  with i show "take (length h) h' ! i = h ! i" by (simp add: nth_append)
qed

lemma iterate_pagerank_st_run:
  assumes gc: "get_corpus h c = Inr corpus"
  shows "case iterate_pagerank corpus d of
           None \<Rightarrow> iterate_pagerank_st c d h = None
         | Some (Inl e) \<Rightarrow>
             \<exists>h'. iterate_pagerank_st c d h = Some (Inl e, h') \<and> take (length h) h' = h
         | Some (Inr r) \<Rightarrow>
             \<exists>h'. iterate_pagerank_st c d h = Some (Inr (length h), h') \<and> take (length h) h' = h
                  \<and> get_ranks h' (length h) = Inr r"
proof (cases "corpus = []")
  case True
  then show ?thesis
    using gc by (simp add: iterate_pagerank_empty iterate_pagerank_st_def true_div_def)
next
  case False
  define init where "init = assign_each (\<lambda>page. 1 / real (length corpus)) corpus []"
  define p where "p = length h"
  define q where "q = Suc (length h)"
  define h2 where "h2 = (h @ [RanksObj init]) @ [ListObj (map fst corpus)]"
  from get_corpus_bound [OF gc] have cb: "c < length h" by simp
  have inv: "st_inv c p q h2 corpus init (map fst corpus)"
    using cb gc
    by (simp add: st_inv_def p_def q_def h2_def get_corpus_append get_ranks_def get_list_def
        nth_append)
  have h2': "h2 = h @ [RanksObj init, ListObj (map fst corpus)]" by (simp add: h2_def)
  have frame: "take (length h) h' = h" if "same_except h2 h' {p, q}" for h'
    using that unfolding h2' by (rule same_except_take) (simp add: p_def q_def)
  have unf_st: "iterate_pagerank_st c d h =
      (case iterate_loop_st c d q p h2 of
         None \<Rightarrow> None
       | Some (Inl e, h3) \<Rightarrow> Some (Inl e, h3)
       | Some (Inr u, h3) \<Rightarrow>
           (case get_ranks h3 p of
              Inl e \<Rightarrow> Some (Inl e, h3)
            | Inr probs \<Rightarrow>
                (case normalize probs of
                   Inl e \<Rightarrow> Some (Inl e, h3)
                 | Inr probs' \<Rightarrow> Some (Inr p, h3[p := RanksObj probs']))))"
    unfolding p_def q_def h2_def init_def using False gc
    by (simp add: iterate_pagerank_st_def true_div_def Let_def)
  note unf = iterate_pagerank_unfold [OF False, of d, folded init_def]
  show ?thesis
  proof (cases "iterate_loop corpus d (map fst corpus) init")
    case None
    have "iterate_loop_st c d q p h2 = None"
    proof (cases "iterate_loop_st c d q p h2")
      case (Some x)
      from iterate_loop_st_returns [OF Some inv] None show ?thesis by simp
    qed simp
    with None show ?thesis by (simp add: unf unf_st)
  next
    case (Some y)
    note sim = iterate_loop_st_sim [OF Some inv]
    show ?thesis
    proof (cases y)
      case (Inl e)
      with sim obtain h' where st: "iterate_loop_st c d q p h2 = Some (Inl e, h')"
        and se: "same_except h2 h' {p, q}" by auto
      show ?thesis using Some Inl st frame [OF se] by (simp add: unf unf_st)
    next
      case (Inr probs')
      with sim obtain h' where st: "iterate_loop_st c d q p h2 = Some (Inr (), h')"
        and se: "same_except h2 h' {p, q}" and gr: "get_ranks h' p = Inr probs'" by auto
      from get_ranks_bound [OF gr] have pb: "p < length h'" by simp
      show ?thesis
      proof (cases "normalize probs'")
        case e: (Inl e)
        show ?thesis using Some Inr st gr e frame [OF se] by (simp add: unf unf_st)
      next
        case r: (Inr r)
        have "take (length h) (h'[p := RanksObj r]) = h"
          using frame [OF se] by (simp add: p_def)
        then show ?thesis
          using Some Inr st gr r get_ranks_same [OF pb, of r]
          by (simp add: unf unf_st) (simp add: p_def)
      qed
    qed
  qed
qed

lemma iterate_pagerank_st_refines:
  assumes "get_corpus h c = Inr corpus"
  shows "observe (iterate_pagerank_st c d h) = iterate_pagerank corpus d"
proof (cases "iterate_pagerank corpus d")
  case None
  with iterate_pagerank_st_run [OF assms, of d] show ?thesis by simp
next
  case (Some y)
  with iterate_pagerank_st_run [OF assms, of d] show ?thesis
    by (cases y) auto
qed

lemma iterate_pagerank_st_frame:
  assumes "iterate_pagerank_st c d h = Some (res, h')"
  shows "take (length h) h' = h"
proof (cases "get_corpus h c")
  case (Inl e)
  with assms show ?thesis by (simp add: iterate_pagerank_st_def)
next
  case (Inr corpus)
  from iterate_pagerank_st_run [OF Inr, of d] assms show ?thesis
    by (auto split: option.splits sum.splits)
qed

lemma iterate_pagerank_st_example:
  "iterate_pagerank_st 0 (17 / 20)
     [CorpusObj [(''A'', {|''C''|}), (''B'', {|''C''|}), (''C'', {|''A''|})]]
   = Some (Inr 1,
       [CorpusObj [(''A'', {|''C''|}), (''B'', {|''C''|}), (''C'', {|''A''|})],
        RanksObj [(''A'', 400 / 911), (''B'', 60 / 911), (''C'', 451 / 911)],
        ListObj []])"
  by (simp add: iterate_pagerank_st_def true_div_def iterate_loop_st.simps pass_loop_st.simps
      get_corpus_def get_ranks_def get_list_def new_rank_def
      dict_get_def normalize_def Let_def fcard_finsert_if fcard_fempty)

section \<open>The claims about the estimators\<close>

lemma iterate_pagerank_example:
  "iterate_pagerank [(''A'', {|''C''|}), (''B'', {|''C''|}), (''C'', {|''A''|})] (17 / 20)
     = Some (Inr [(''A'', 400 / 911), (''B'', 60 / 911), (''C'', 451 / 911)])"
  by (simp add: iterate_pagerank_def true_div_def iterate_loop.simps pass_loop.simps new_rank_def
      dict_get_def normalize_def Let_def fcard_finsert_if fcard_fempty)

lemma example_valid: "valid_corpus [(''A'', {|''C''|}), (''B'', {|''C''|}), (''C'', {|''A''|})]"
  by (simp add: valid_corpus_def wf_dict_def)

text \<open>
  Claim C1. The claim describes the iteration as passes in which every active node is
  recomputed by the formula of the specification. The formula is the one the code
  computes (\<open>new_rank_formula\<close>), a converged node is removed for good and the loop ends
  when the list is empty; but a pass does not visit every active node. The body of the
  \<^verbatim>\<open>for\<close> loop removes the converged page from the list the loop runs over, so the
  page that follows it moves into its position and this pass never visits it. On the
  corpus below, with damping factor \<open>17/20\<close>, the first pass removes \<open>A\<close> and then
  visits \<open>C\<close>: \<open>B\<close> is still a candidate after the pass and still has rank \<open>1/3\<close>,
  although the formula gives it \<open>1/20\<close>.
\<close>

theorem first_pass_skips_active_node:
  "valid_corpus [(''A'', {|''C''|}), (''B'', {|''C''|}), (''C'', {|''A''|})]
   \<and> pass_loop [(''A'', {|''C''|}), (''B'', {|''C''|}), (''C'', {|''A''|})] (17 / 20) 0
       (map fst [(''A'', {|''C''|}), (''B'', {|''C''|}), (''C'', {|''A''|})])
       (assign_each (\<lambda>page. 1 / 3) [(''A'', {|''C''|}), (''B'', {|''C''|}), (''C'', {|''A''|})] [])
     = Inr ([(''A'', 1 / 3), (''B'', 1 / 3), (''C'', 37 / 60)], [''B'', ''C''])
   \<and> new_rank [(''A'', {|''C''|}), (''B'', {|''C''|}), (''C'', {|''A''|})] (17 / 20)
       (assign_each (\<lambda>page. 1 / 3) [(''A'', {|''C''|}), (''B'', {|''C''|}), (''C'', {|''A''|})] [])
       ''B''
     = Inr (1 / 20)"
  by (simp add: valid_corpus_def wf_dict_def pass_loop.simps new_rank_def dict_get_def
      fcard_finsert_if fcard_fempty Let_def)



lemma diverging_pass:
  assumes "\<bar>2 - 3 / 2 * b - a\<bar> \<ge> 1 / 1000" and "\<bar>3 * b - 4 - b\<bar> \<ge> 1 / 1000"
  shows "pass_loop [(''A'', {|''B''|}), (''B'', {||})] (- 3) 0 [''A'', ''B''] [(''A'', a), (''B'', b)]
       = Inr ([(''A'', 2 - 3 / 2 * b), (''B'', 3 * b - 4)], [''A'', ''B''])"
proof -
  have c1: "\<not> \<bar>2 - 3 / 2 * b - a\<bar> < 1 / 1000" using assms(1) by simp
  have c2: "\<not> \<bar>3 * b - 4 - b\<bar> < 1 / 1000" using assms(2) by simp
  have n1: "new_rank [(''A'', {|''B''|}), (''B'', {||})] (- 3) [(''A'', a), (''B'', b)] ([''A'', ''B''] ! 0)
      = Inr (2 - 3 / 2 * b)"
    by (simp add: new_rank_def dict_get_def fcard_finsert_if fcard_fempty)
  have g1: "dict_get [(''A'', a), (''B'', b)] ([''A'', ''B''] ! 0) = Inr a"
    by (simp add: dict_get_def)
  have s1: "pass_loop [(''A'', {|''B''|}), (''B'', {||})] (- 3) 0 [''A'', ''B''] [(''A'', a), (''B'', b)]
      = pass_loop [(''A'', {|''B''|}), (''B'', {||})] (- 3) (Suc 0) [''A'', ''B'']
          [(''A'', 2 - 3 / 2 * b), (''B'', b)]"
    using pass_loop_unfold [OF _ n1 g1] c1 by simp
  have n2: "new_rank [(''A'', {|''B''|}), (''B'', {||})] (- 3) [(''A'', 2 - 3 / 2 * b), (''B'', b)]
      ([''A'', ''B''] ! Suc 0) = Inr (3 * b - 4)"
    by (simp add: new_rank_def dict_get_def fcard_finsert_if fcard_fempty)
  have g2: "dict_get [(''A'', 2 - 3 / 2 * b), (''B'', b)] ([''A'', ''B''] ! Suc 0) = Inr b"
    by (simp add: dict_get_def)
  have s2: "pass_loop [(''A'', {|''B''|}), (''B'', {||})] (- 3) (Suc 0) [''A'', ''B'']
          [(''A'', 2 - 3 / 2 * b), (''B'', b)]
      = pass_loop [(''A'', {|''B''|}), (''B'', {||})] (- 3) (Suc (Suc 0)) [''A'', ''B'']
          [(''A'', 2 - 3 / 2 * b), (''B'', 3 * b - 4)]"
    using pass_loop_unfold [OF _ n2 g2] c2 by simp
  have s3: "pass_loop [(''A'', {|''B''|}), (''B'', {||})] (- 3) (Suc (Suc 0)) [''A'', ''B'']
          [(''A'', 2 - 3 / 2 * b), (''B'', 3 * b - 4)]
      = Inr ([(''A'', 2 - 3 / 2 * b), (''B'', 3 * b - 4)], [''A'', ''B''])"
    by (rule pass_loop_done) simp
  from s1 s2 s3 show ?thesis by simp
qed

lemma diverging_loop:
  assumes "iterate_loop corpus d cands probs = Some y"
    and "corpus = [(''A'', {|''B''|}), (''B'', {||})]" and "d = - 3" and "cands = [''A'', ''B'']"
    and "\<exists>b\<le>- 5 / 2. probs = [(''A'', - b / 2), (''B'', b)]"
  shows False
  using assms
proof (induction rule: iterate_loop.raw_induct [rotated 1, consumes 1])
  case (1 loop corpus d cands probs y)
  from "1.prems"(4) obtain b where b: "b \<le> - 5 / 2" and probs: "probs = [(''A'', - b / 2), (''B'', b)]"
    by blast
  have "\<bar>2 - 3 / 2 * b - (- b / 2)\<bar> \<ge> 1 / 1000" and "\<bar>3 * b - 4 - b\<bar> \<ge> 1 / 1000"
    using b by simp_all
  from diverging_pass [OF this]
  have pass: "pass_loop corpus d 0 cands probs
      = Inr ([(''A'', 2 - 3 / 2 * b), (''B'', 3 * b - 4)], [''A'', ''B''])"
    by (simp add: "1.prems"(1,2,3) probs)
  from "1.hyps" pass "1.prems"(3)
  have run: "loop corpus d [''A'', ''B''] [(''A'', 2 - 3 / 2 * b), (''B'', 3 * b - 4)] = Some y"
    by simp
  have "\<exists>b'\<le>- 5 / 2. [(''A'', 2 - 3 / 2 * b), (''B'', 3 * b - 4)] = [(''A'', - b' / 2), (''B'', b')]"
    using b by (intro exI [of _ "3 * b - 4"]) simp
  from "1.IH" [OF run "1.prems"(1,2) refl this] show False .
qed

text \<open>
  A remark on the bound of the termination argument. The code accepts any number as
  second argument. At \<open>- 3\<close>, which is no probability and so no damping factor, the loop
  never ends: from the second pass on the rank of \<open>B\<close> is some \<open>b \<le> - 5/2\<close> and that of
  \<open>A\<close> is \<open>- b/2\<close>; a pass turns \<open>b\<close> into \<open>3 * b - 4\<close> and no page ever converges.
\<close>

lemma iterate_pagerank_needs_bound:
  "valid_corpus [(''A'', {|''B''|}), (''B'', {||})]
   \<and> iterate_pagerank [(''A'', {|''B''|}), (''B'', {||})] (- 3) = None"
proof -
  have pass: "pass_loop [(''A'', {|''B''|}), (''B'', {||})] (- 3) 0 [''A'', ''B'']
      [(''A'', 1 / 2), (''B'', 1 / 2)] = Inr ([(''A'', 5 / 4), (''B'', - 5 / 2)], [''A'', ''B''])"
    using diverging_pass [of "1 / 2" "1 / 2"] by simp
  have "iterate_loop [(''A'', {|''B''|}), (''B'', {||})] (- 3) [''A'', ''B'']
      [(''A'', 1 / 2), (''B'', 1 / 2)]
    = iterate_loop [(''A'', {|''B''|}), (''B'', {||})] (- 3) [''A'', ''B'']
      [(''A'', 5 / 4), (''B'', - 5 / 2)]"
    by (rule iterate_loop_pass [OF _ pass]) simp
  moreover have "iterate_loop [(''A'', {|''B''|}), (''B'', {||})] (- 3) [''A'', ''B'']
      [(''A'', 5 / 4), (''B'', - 5 / 2)] = None"
  proof (cases "iterate_loop [(''A'', {|''B''|}), (''B'', {||})] (- 3) [''A'', ''B'']
      [(''A'', 5 / 4), (''B'', - 5 / 2)]")
    case None
    then show ?thesis .
  next
    case (Some y)
    have "\<exists>b\<le>- 5 / 2. [(''A'', 5 / 4), (''B'', - 5 / 2)] = [(''A'', - b / 2), (''B'', b :: real)]"
      by (intro exI [of _ "- 5 / 2"]) simp
    from diverging_loop [OF Some refl refl refl this] show ?thesis ..
  qed
  ultimately show ?thesis
    by (simp add: iterate_pagerank_def true_div_def valid_corpus_def wf_dict_def)
qed

text \<open>
  Claim C4. On a valid corpus with a page, whatever the damping factor and the draws,
  a distribution that \<open>sample_pagerank\<close> or \<open>iterate_pagerank\<close> returns sums to 1
  (in exact arithmetic, which is what the model computes in). Both do return one:
  \<open>sample_pagerank\<close> for every positive sample count, \<open>iterate_pagerank\<close> for every
  damping factor \<open>0 \<le> d < 1\<close>.
\<close>

theorem pagerank_results_sum_to_one:
  assumes "valid_corpus corpus" and "corpus \<noteq> []"
  shows "(0 < n \<longrightarrow> (\<exists>r. sample_pagerank corpus d n draws = Inr r \<and> sum_list (map snd r) = 1))
       \<and> (0 \<le> d \<and> d < 1 \<longrightarrow>
            (\<exists>r. iterate_pagerank corpus d = Some (Inr r) \<and> sum_list (map snd r) = 1))
       \<and> (\<forall>r. sample_pagerank corpus d n draws = Inr r \<longrightarrow> sum_list (map snd r) = 1)
       \<and> (\<forall>r. iterate_pagerank corpus d = Some (Inr r) \<longrightarrow> sum_list (map snd r) = 1)"
proof (intro conjI impI allI)
  assume "0 < n"
  from sample_pagerank_sum [OF assms this, of d draws]
  show "\<exists>r. sample_pagerank corpus d n draws = Inr r \<and> sum_list (map snd r) = 1" by blast
next
  have wf: "wf_dict corpus" using assms(1) by (simp add: valid_corpus_def)
  assume "0 \<le> d \<and> d < 1"
  then have "0 \<le> d" "d < 1" by simp_all
  from iterate_pagerank_sum [OF wf assms(2) this]
  show "\<exists>r. iterate_pagerank corpus d = Some (Inr r) \<and> sum_list (map snd r) = 1" by blast
next
  fix r assume r: "sample_pagerank corpus d n draws = Inr r"
  have wf: "wf_dict corpus" using assms(1) by (simp add: valid_corpus_def)
  show "sum_list (map snd r) = 1"
  proof (cases "0 < n")
    case True
    from sample_pagerank_sum [OF assms True, of d draws] r show ?thesis by auto
  next
    case False
    with sample_pagerank_failures [of corpus n d draws] wf assms(2) r show ?thesis by simp
  qed
next
  fix r assume r: "iterate_pagerank corpus d = Some (Inr r)"
  have wf: "wf_dict corpus" using assms(1) by (simp add: valid_corpus_def)
  from iterate_pagerank_result [OF r wf] show "sum_list (map snd r) = 1" by simp
qed

theorem pagerank_results_sum_to_one_witness:
  "valid_corpus [(''A'', {|''C''|}), (''B'', {|''C''|}), (''C'', {|''A''|})]
   \<and> [(''A'', {|''C''|}), (''B'', {|''C''|}), (''C'', {|''A''|})] \<noteq> []
   \<and> (\<exists>r. sample_pagerank [(''A'', {|''C''|}), (''B'', {|''C''|}), (''C'', {|''A''|})] (17 / 20) 2
             (\<lambda>i. 0) = Inr r
          \<and> sum_list (map snd r) = 1)
   \<and> iterate_pagerank [(''A'', {|''C''|}), (''B'', {|''C''|}), (''C'', {|''A''|})] (17 / 20)
       = Some (Inr [(''A'', 400 / 911), (''B'', 60 / 911), (''C'', 451 / 911)])
   \<and> sum_list (map snd [(''A'', 400 / 911 :: real), (''B'', 60 / 911), (''C'', 451 / 911)]) = 1"
proof -
  have v: "valid_corpus [(''A'', {|''C''|}), (''B'', {|''C''|}), (''C'', {|''A''|})]"
    by (rule example_valid)
  have ne: "[(''A'', {|''C''|}), (''B'', {|''C''|}), (''C'', {|''A''|})] \<noteq> []"
    by simp
  note t = pagerank_results_sum_to_one [OF v ne, of 2 "17 / 20" "\<lambda>i. 0"]
  from t have s: "\<exists>r. sample_pagerank [(''A'', {|''C''|}), (''B'', {|''C''|}), (''C'', {|''A''|})]
      (17 / 20) 2 (\<lambda>i. 0) = Inr r \<and> sum_list (map snd r) = 1"
    by simp
  from t iterate_pagerank_example
  have i: "sum_list (map snd [(''A'', 400 / 911 :: real), (''B'', 60 / 911), (''C'', 451 / 911)]) = 1"
    by blast
  from v ne s iterate_pagerank_example i show ?thesis by (intro conjI)
qed

text \<open>
  Claim C10. The dictionary returned by \<open>transition_model\<close>, by \<open>sample_pagerank\<close> and
  by \<open>iterate_pagerank\<close> has the keys of the corpus, in the order of the corpus, and no
  other key.
\<close>

theorem results_keep_keys:
  assumes "wf_dict corpus"
  shows "(transition_model corpus page d = Inr pr \<longrightarrow> map fst pr = map fst corpus)
       \<and> (sample_pagerank corpus d n draws = Inr r \<longrightarrow> map fst r = map fst corpus)
       \<and> (iterate_pagerank corpus d = Some (Inr r') \<longrightarrow> map fst r' = map fst corpus)"
  using transition_model_keys [OF assms] sample_pagerank_keys [OF assms]
    iterate_pagerank_result [OF _ assms]
  by blast

theorem results_keep_keys_witness:
  "wf_dict [(''A'', {|''C''|}), (''B'', {|''C''|}), (''C'', {|''A''|})]
   \<and> (\<exists>pr. transition_model [(''A'', {|''C''|}), (''B'', {|''C''|}), (''C'', {|''A''|})] ''A'' (17 / 20)
            = Inr pr \<and> map fst pr = [''A'', ''B'', ''C''])
   \<and> (\<exists>r. sample_pagerank [(''A'', {|''C''|}), (''B'', {|''C''|}), (''C'', {|''A''|})] (17 / 20) 2
            (\<lambda>i. 0) = Inr r \<and> map fst r = [''A'', ''B'', ''C''])
   \<and> (\<exists>r. iterate_pagerank [(''A'', {|''C''|}), (''B'', {|''C''|}), (''C'', {|''A''|})] (17 / 20)
            = Some (Inr r) \<and> map fst r = [''A'', ''B'', ''C''])"
proof -
  have v: "valid_corpus [(''A'', {|''C''|}), (''B'', {|''C''|}), (''C'', {|''A''|})]"
    by (rule example_valid)
  then have wf: "wf_dict [(''A'', {|''C''|}), (''B'', {|''C''|}), (''C'', {|''A''|})]"
    by (simp add: valid_corpus_def)
  have ne: "[(''A'', {|''C''|}), (''B'', {|''C''|}), (''C'', {|''A''|})] \<noteq> []"
    by simp
  obtain pr where pr: "transition_model [(''A'', {|''C''|}), (''B'', {|''C''|}), (''C'', {|''A''|})]
      ''A'' (17 / 20) = Inr pr"
    by (simp add: transition_model_def dict_get_def fcard_finsert_if fcard_fempty)
  obtain r where r: "sample_pagerank [(''A'', {|''C''|}), (''B'', {|''C''|}), (''C'', {|''A''|})]
      (17 / 20) 2 (\<lambda>i. 0) = Inr r"
    using sample_pagerank_sum [OF v ne, of 2 "17 / 20" "\<lambda>i. 0"] by auto
  note it = iterate_pagerank_example
  from results_keep_keys [OF wf, of "''A''" "17 / 20" pr 2 "\<lambda>i. 0" r
      "[(''A'', 400 / 911), (''B'', 60 / 911), (''C'', 451 / 911)]"] pr r it
  have "map fst pr = [''A'', ''B'', ''C'']" and "map fst r = [''A'', ''B'', ''C'']"
    by simp_all
  with wf pr r it show ?thesis by auto
qed

text \<open>
  Claim C7. Two calls of \<open>iterate_pagerank\<close> on the same graph with the same damping
  factor (epsilon is the literal 0.001 of line 132), made in any two stores and through
  any two references, end the same way: both never return, both raise the same
  exception, or both return dictionaries with the same contents. A call writes only the
  two objects it creates itself: every object that was in the store before the call is
  unchanged after it, so a call leaves nothing for the next one to read, and a second
  call made in the store that the first call left behind has the output of the first.
  Floats being modelled by reals, bit-identical output is equality of the numbers.
\<close>

theorem iterate_pagerank_two_runs:
  assumes "get_corpus h1 c1 = Inr corpus" and "get_corpus h2 c2 = Inr corpus"
  shows "observe (iterate_pagerank_st c1 d h1) = observe (iterate_pagerank_st c2 d h2)
       \<and> (iterate_pagerank_st c1 d h1 = Some (res, h1') \<longrightarrow>
            take (length h1) h1' = h1
          \<and> observe (iterate_pagerank_st c1 d h1') = observe (iterate_pagerank_st c1 d h1))"
proof -
  have a: "observe (iterate_pagerank_st c1 d h1) = observe (iterate_pagerank_st c2 d h2)"
    by (simp add: iterate_pagerank_st_refines [OF assms(1)]
        iterate_pagerank_st_refines [OF assms(2)])
  have b: "take (length h1) h1' = h1
      \<and> observe (iterate_pagerank_st c1 d h1') = observe (iterate_pagerank_st c1 d h1)"
    if run: "iterate_pagerank_st c1 d h1 = Some (res, h1')"
  proof -
    from iterate_pagerank_st_frame [OF run] have t: "take (length h1) h1' = h1" .
    from get_corpus_take [OF assms(1) t] have "get_corpus h1' c1 = Inr corpus" .
    from iterate_pagerank_st_refines [OF this] iterate_pagerank_st_refines [OF assms(1)] t
    show ?thesis by simp
  qed
  from a b show ?thesis by blast
qed

theorem iterate_pagerank_two_runs_witness:
  "get_corpus [CorpusObj [(''A'', {|''C''|}), (''B'', {|''C''|}), (''C'', {|''A''|})]] 0
     = Inr [(''A'', {|''C''|}), (''B'', {|''C''|}), (''C'', {|''A''|})]
   \<and> get_corpus [ListObj [''B''],
         CorpusObj [(''A'', {|''C''|}), (''B'', {|''C''|}), (''C'', {|''A''|})]] 1
     = Inr [(''A'', {|''C''|}), (''B'', {|''C''|}), (''C'', {|''A''|})]
   \<and> iterate_pagerank_st 0 (17 / 20)
       [CorpusObj [(''A'', {|''C''|}), (''B'', {|''C''|}), (''C'', {|''A''|})]]
     = Some (Inr 1,
         [CorpusObj [(''A'', {|''C''|}), (''B'', {|''C''|}), (''C'', {|''A''|})],
          RanksObj [(''A'', 400 / 911), (''B'', 60 / 911), (''C'', 451 / 911)],
          ListObj []])
   \<and> observe (iterate_pagerank_st 1 (17 / 20)
         [ListObj [''B''],
          CorpusObj [(''A'', {|''C''|}), (''B'', {|''C''|}), (''C'', {|''A''|})]])
     = Some (Inr [(''A'', 400 / 911), (''B'', 60 / 911), (''C'', 451 / 911)])
   \<and> observe (iterate_pagerank_st 0 (17 / 20)
         [CorpusObj [(''A'', {|''C''|}), (''B'', {|''C''|}), (''C'', {|''A''|})],
          RanksObj [(''A'', 400 / 911), (''B'', 60 / 911), (''C'', 451 / 911)],
          ListObj []])
     = Some (Inr [(''A'', 400 / 911), (''B'', 60 / 911), (''C'', 451 / 911)])"
  using iterate_pagerank_two_runs
      [of "[CorpusObj [(''A'', {|''C''|}), (''B'', {|''C''|}), (''C'', {|''A''|})]]" 0
          "[(''A'', {|''C''|}), (''B'', {|''C''|}), (''C'', {|''A''|})]"
          "[ListObj [''B''],
            CorpusObj [(''A'', {|''C''|}), (''B'', {|''C''|}), (''C'', {|''A''|})]]" 1
          "17 / 20" "Inr 1"
          "[CorpusObj [(''A'', {|''C''|}), (''B'', {|''C''|}), (''C'', {|''A''|})],
            RanksObj [(''A'', 400 / 911), (''B'', 60 / 911), (''C'', 451 / 911)],
            ListObj []]"]
    iterate_pagerank_st_example
  by (simp add: get_corpus_def get_ranks_def)

end
